theory Spec2Isabelle
  imports Main "HOL-Library.Word"
begin

section \<open>The request transmission layer of the Surface serial hub\<close>

text \<open>
  This theory embeds \<^verbatim>\<open>drivers/misc/surface_sam/ssh_request_layer.c\<close> (the RTL) and
  its header. One layer instance is modelled. Request objects live in a store indexed
  by their address; the two intrusive lists of the layer are lists of addresses.

  What the file does not contain is made explicit:
  \<^item> the kernel's own helpers (errno numbers, \<^verbatim>\<open>ktime_t\<close> arithmetic, \<^verbatim>\<open>atomic_t\<close>)
    follow their kernel meaning, with the wrap-around of the machine integers written out;
  \<^item> the packet layer below (\<^verbatim>\<open>ssh_ptl_submit\<close>, \<^verbatim>\<open>ssh_ptl_cancel\<close>,
    \<^verbatim>\<open>ssh_ptl_shutdown\<close>) is the environment: what it returns and which packet callbacks
    it fires are arguments of the functions that call it;
  \<^item> the current time (\<^verbatim>\<open>ktime_get_coarse_boottime\<close>) is an argument;
  \<^item> \<^verbatim>\<open>msecs_to_jiffies\<close> depends on the kernel configuration and is a parameter of the
    layer; the conversion of its argument to \<^verbatim>\<open>unsigned int\<close> at the call is written out;
  \<^item> reference counting (\<^verbatim>\<open>ssh_request_get\<close>/\<^verbatim>\<open>ssh_request_put\<close>, declared in the
    packet layer's header) only decides when the client's \<^verbatim>\<open>release\<close> runs and is left out;
  \<^item> the client's \<^verbatim>\<open>complete\<close> callback is recorded: every call appends its arguments
    to the log \<open>completions\<close> of the request.
\<close>

subsection \<open>Kernel constants and integer helpers\<close>

abbreviation ENOENT :: int where "ENOENT \<equiv> 2"
abbreviation EAGAIN :: int where "EAGAIN \<equiv> 11"
abbreviation EBUSY :: int where "EBUSY \<equiv> 16"
abbreviation EINVAL :: int where "EINVAL \<equiv> 22"
abbreviation ESHUTDOWN :: int where "ESHUTDOWN \<equiv> 108"
abbreviation ETIMEDOUT :: int where "ETIMEDOUT \<equiv> 110"
abbreviation EALREADY :: int where "EALREADY \<equiv> 114"
abbreviation EREMOTEIO :: int where "EREMOTEIO \<equiv> 121"
abbreviation ECANCELED :: int where "ECANCELED \<equiv> 125"

text \<open>Two's complement wrap-around of a 32-bit \<^verbatim>\<open>int\<close> and a 64-bit \<^verbatim>\<open>s64\<close>.\<close>

definition s32 :: "int \<Rightarrow> int" where
  "s32 x = (x + 2 ^ 31) mod 2 ^ 32 - 2 ^ 31"

definition s64 :: "int \<Rightarrow> int" where
  "s64 x = (x + 2 ^ 63) mod 2 ^ 64 - 2 ^ 63"

text \<open>Conversion of an integer to a 32-bit \<^verbatim>\<open>unsigned int\<close>.\<close>

definition u32 :: "int \<Rightarrow> int" where
  "u32 x = x mod 2 ^ 32"

text \<open>C division truncates towards zero.\<close>

definition c_div :: "int \<Rightarrow> int \<Rightarrow> int" where
  "c_div a b = sgn a * sgn b * (\<bar>a\<bar> div \<bar>b\<bar>)"

definition KTIME_MAX :: int where
  "KTIME_MAX = 2 ^ 63 - 1"

definition ktime_add :: "int \<Rightarrow> int \<Rightarrow> int" where
  "ktime_add a b = s64 (a + b)"

definition ktime_sub :: "int \<Rightarrow> int \<Rightarrow> int" where
  "ktime_sub a b = s64 (a - b)"

definition ktime_before :: "int \<Rightarrow> int \<Rightarrow> bool" where
  "ktime_before a b = (a < b)"

definition ktime_after :: "int \<Rightarrow> int \<Rightarrow> bool" where
  "ktime_after a b = (a > b)"

definition ms_to_ktime :: "int \<Rightarrow> int" where
  "ms_to_ktime ms = s64 (ms * 1000000)"

definition ktime_ms_delta :: "int \<Rightarrow> int \<Rightarrow> int" where
  "ktime_ms_delta later earlier = c_div (ktime_sub later earlier) 1000000"

definition SSH_RTL_REQUEST_TIMEOUT :: int where
  "SSH_RTL_REQUEST_TIMEOUT = ms_to_ktime 3000"

text \<open>\<^verbatim>\<open>HZ\<close> is a constant of the kernel configuration; it is a parameter here.\<close>

definition SSH_RTL_REQUEST_TIMEOUT_RESOLUTION :: "nat \<Rightarrow> int" where
  "SSH_RTL_REQUEST_TIMEOUT_RESOLUTION hz = ms_to_ktime (max (2000 div int hz) 50)"

definition SSH_RTL_MAX_PENDING :: int where
  "SSH_RTL_MAX_PENDING = 3"

subsection \<open>Data model\<close>

text \<open>
  The bits of \<^verbatim>\<open>rqst->state\<close>. The enumeration that numbers them is declared outside
  this file; the state word is modelled as the set of bits that are set, which is what
  \<^verbatim>\<open>test_bit\<close>, \<^verbatim>\<open>set_bit\<close> and \<^verbatim>\<open>clear_bit\<close> see for any numbering.
\<close>

datatype flag =
    SF_LOCKED | SF_QUEUED | SF_PENDING | SF_TRANSMITTING | SF_TRANSMITTED
  | SF_RSPRCVD | SF_CANCELED | SF_COMPLETED
  | TY_FLUSH | TY_HAS_RESPONSE

definition SSH_REQUEST_FLAGS_TY_MASK :: "flag set" where
  "SSH_REQUEST_FLAGS_TY_MASK = {TY_FLUSH, TY_HAS_RESPONSE}"

record ssh_command =
  cmd_rqid :: "16 word"
  cmd_cid :: "8 word"

type_synonym response = "ssh_command \<times> 8 word list"

text \<open>
  A request. \<open>ptl\<close> says whether \<^verbatim>\<open>packet.ptl\<close> is bound (non-NULL), \<open>sequenced\<close> is
  the packet's \<^verbatim>\<open>SSH_PACKET_TY_SEQUENCED_BIT\<close>, \<open>data_rqid\<close> is the request id read
  from the packet's message buffer (\<open>None\<close> while \<^verbatim>\<open>packet.data.ptr\<close> is NULL).
  Two fields are not in the C structure and only record history: \<open>completions\<close>, the
  calls of the client's \<^verbatim>\<open>complete\<close> callback, and \<open>ptl_accepted\<close>, which says that
  \<^verbatim>\<open>ssh_ptl_submit\<close> has returned 0 for the packet.
\<close>

record ssh_request =
  state :: "flag set"
  ptl :: bool
  sequenced :: bool
  data_rqid :: "16 word option"
  timestamp :: int
  completions :: "(response option \<times> int) list"
  ptl_accepted :: bool

text \<open>
  The layer. \<open>tx_work\<close> says whether the transmitter work item is queued,
  \<open>rtx_reaper\<close> holds the delay in jiffies that was last handed to
  \<^verbatim>\<open>mod_delayed_work\<close> for the reaper. \<open>HZ\<close>, \<open>msecs_to_jiffies\<close> and
  \<open>LOCKED_BIT_word\<close> are constants of the build: the timer frequency, the kernel's
  conversion from milliseconds (an \<^verbatim>\<open>unsigned int\<close>) to jiffies for that frequency, and
  the bits that are set in the integer \<^verbatim>\<open>SSH_REQUEST_SF_LOCKED_BIT\<close> (the number of the
  bit, which \<^verbatim>\<open>ssh_rtl_cancel_nonpending\<close> stores as a state word).
\<close>

record ssh_rtl =
  requests :: "nat \<Rightarrow> ssh_request"
  shutdown :: bool
  queue :: "nat list"
  pending :: "nat list"
  pending_count :: int
  tx_work :: bool
  rtx_timeout :: int
  rtx_expires :: int
  rtx_reaper :: "int option"
  HZ :: nat
  msecs_to_jiffies :: "int \<Rightarrow> int"
  LOCKED_BIT_word :: "flag set"

text \<open>
  A function that can fault returns the fault and the store at the faulting statement:
  a NULL pointer dereference, or a loop that does not end.
\<close>

datatype fault = NullDeref | NoReturn

type_synonym 'a res = "(fault + 'a) \<times> ssh_rtl"

subsection \<open>Bit and list primitives\<close>

definition upd_rq :: "nat \<Rightarrow> (ssh_request \<Rightarrow> ssh_request) \<Rightarrow> ssh_rtl \<Rightarrow> ssh_rtl" where
  "upd_rq r f s = s\<lparr>requests := (requests s)(r := f (requests s r))\<rparr>"

definition test_bit_rq :: "flag \<Rightarrow> nat \<Rightarrow> ssh_rtl \<Rightarrow> bool" where
  "test_bit_rq b r s = (b \<in> state (requests s r))"

definition set_bit_rq :: "flag \<Rightarrow> nat \<Rightarrow> ssh_rtl \<Rightarrow> ssh_rtl" where
  "set_bit_rq b r s = upd_rq r (\<lambda>q. q\<lparr>state := insert b (state q)\<rparr>) s"

definition clear_bit_rq :: "flag \<Rightarrow> nat \<Rightarrow> ssh_rtl \<Rightarrow> ssh_rtl" where
  "clear_bit_rq b r s = upd_rq r (\<lambda>q. q\<lparr>state := state q - {b}\<rparr>) s"

text \<open>
  A request has one list node, so it is linked in at most one list; \<^verbatim>\<open>list_del\<close>
  unlinks it from the list it is in.
\<close>

definition list_del :: "nat \<Rightarrow> ssh_rtl \<Rightarrow> ssh_rtl" where
  "list_del r s = s\<lparr>queue := removeAll r (queue s), pending := removeAll r (pending s)\<rparr>"

definition atomic_inc_pending :: "ssh_rtl \<Rightarrow> ssh_rtl" where
  "atomic_inc_pending s = s\<lparr>pending_count := s32 (pending_count s + 1)\<rparr>"

definition atomic_dec_pending :: "ssh_rtl \<Rightarrow> ssh_rtl" where
  "atomic_dec_pending s = s\<lparr>pending_count := s32 (pending_count s - 1)\<rparr>"

definition ssh_request_rtl :: "nat \<Rightarrow> ssh_rtl \<Rightarrow> bool" where
  "ssh_request_rtl r s = ptl (requests s r)"

subsection \<open>Queue and pending set\<close>

definition ssh_rtl_queue_remove :: "nat \<Rightarrow> ssh_rtl \<Rightarrow> ssh_rtl" where
  "ssh_rtl_queue_remove r s =
     (if test_bit_rq SF_QUEUED r s then list_del r (clear_bit_rq SF_QUEUED r s) else s)"

definition ssh_rtl_queue_empty :: "ssh_rtl \<Rightarrow> bool" where
  "ssh_rtl_queue_empty s = (queue s = [])"

definition ssh_rtl_pending_remove :: "nat \<Rightarrow> ssh_rtl \<Rightarrow> ssh_rtl" where
  "ssh_rtl_pending_remove r s =
     (if test_bit_rq SF_PENDING r s
      then list_del r (atomic_dec_pending (clear_bit_rq SF_PENDING r s))
      else s)"

definition ssh_rtl_tx_pending_push :: "nat \<Rightarrow> ssh_rtl \<Rightarrow> int \<times> ssh_rtl" where
  "ssh_rtl_tx_pending_push r s =
     (if test_bit_rq SF_LOCKED r s then (- EINVAL, s)
      else if test_bit_rq SF_PENDING r s then (- EALREADY, s)
      else (0, (atomic_inc_pending (set_bit_rq SF_PENDING r s))
                 \<lparr>pending := pending s @ [r]\<rparr>))"

definition ssh_rtl_complete_with_status :: "nat \<Rightarrow> int \<Rightarrow> ssh_rtl \<Rightarrow> ssh_rtl" where
  "ssh_rtl_complete_with_status r status s =
     upd_rq r (\<lambda>q. q\<lparr>completions := completions q @ [(None, status)]\<rparr>) s"

definition ssh_rtl_complete_with_rsp ::
    "nat \<Rightarrow> ssh_command \<Rightarrow> 8 word list \<Rightarrow> ssh_rtl \<Rightarrow> ssh_rtl" where
  "ssh_rtl_complete_with_rsp r cmd data s =
     upd_rq r (\<lambda>q. q\<lparr>completions := completions q @ [(Some (cmd, data), 0)]\<rparr>) s"

subsection \<open>Transmitter\<close>

definition ssh_rtl_tx_can_process :: "nat \<Rightarrow> ssh_rtl \<Rightarrow> bool" where
  "ssh_rtl_tx_can_process r s =
     (if test_bit_rq TY_FLUSH r s then pending_count s = 0
      else pending_count s < SSH_RTL_MAX_PENDING)"

text \<open>
  The walk of \<^verbatim>\<open>ssh_rtl_tx_next\<close> over the queue: \<open>Inl e\<close> is \<^verbatim>\<open>ERR_PTR(e)\<close>.
\<close>

fun tx_next_scan :: "nat list \<Rightarrow> ssh_rtl \<Rightarrow> (int + nat) \<times> ssh_rtl" where
  "tx_next_scan [] s = (Inl (- ENOENT), s)"
| "tx_next_scan (p # ps) s =
     (if test_bit_rq SF_LOCKED p s then tx_next_scan ps s
      else if \<not> ssh_rtl_tx_can_process p s then (Inl (- EBUSY), s)
      else (Inr p, list_del p (clear_bit_rq SF_QUEUED p (set_bit_rq SF_TRANSMITTING p s))))"

definition ssh_rtl_tx_next :: "ssh_rtl \<Rightarrow> (int + nat) \<times> ssh_rtl" where
  "ssh_rtl_tx_next s = tx_next_scan (queue s) s"

definition ssh_rtl_tx_schedule :: "ssh_rtl \<Rightarrow> bool \<times> ssh_rtl" where
  "ssh_rtl_tx_schedule s =
     (if pending_count s \<ge> SSH_RTL_MAX_PENDING then (False, s)
      else if ssh_rtl_queue_empty s then (False, s)
      else (\<not> tx_work s, s\<lparr>tx_work := True\<rparr>))"

text \<open>
  One transmission attempt. \<open>sub\<close> is what \<^verbatim>\<open>ssh_ptl_submit\<close> returns for the packet.
\<close>

definition ssh_rtl_tx_try_process_one :: "int \<Rightarrow> ssh_rtl \<Rightarrow> int \<times> ssh_rtl" where
  "ssh_rtl_tx_try_process_one sub s =
     (case ssh_rtl_tx_next s of
        (Inl e, s1) \<Rightarrow> (e, s1)
      | (Inr r, s1) \<Rightarrow>
          (case ssh_rtl_tx_pending_push r s1 of (status, s2) \<Rightarrow>
             if status \<noteq> 0 then (- EAGAIN, s2)
             else if sub = - ESHUTDOWN then
               (- ESHUTDOWN,
                ssh_rtl_complete_with_status r (- ESHUTDOWN)
                  (ssh_rtl_pending_remove r (set_bit_rq SF_LOCKED r s2)))
             else if sub \<noteq> 0 then (- EAGAIN, s2)
             else (0, upd_rq r (\<lambda>q. q\<lparr>ptl_accepted := True\<rparr>) s2)))"

text \<open>
  \<^verbatim>\<open>ssh_rtl_tx_try_process_one\<close> holds no lock across the call of \<^verbatim>\<open>ssh_ptl_submit\<close>,
  so other threads can run between its two halves: \<open>tx_process_begin\<close> is the function
  up to that call (\<open>Inr r\<close> is the request it is about to hand over), and
  \<open>tx_process_end\<close> is the function from the return of \<^verbatim>\<open>ssh_ptl_submit\<close> on.
  \<open>tx_process_split\<close> shows that one after the other they are the function.
\<close>

definition tx_process_begin :: "ssh_rtl \<Rightarrow> (int + nat) \<times> ssh_rtl" where
  "tx_process_begin s =
     (case ssh_rtl_tx_next s of
        (Inl e, s1) \<Rightarrow> (Inl e, s1)
      | (Inr r, s1) \<Rightarrow>
          (case ssh_rtl_tx_pending_push r s1 of (status, s2) \<Rightarrow>
             if status \<noteq> 0 then (Inl (- EAGAIN), s2) else (Inr r, s2)))"

definition tx_process_end :: "nat \<Rightarrow> int \<Rightarrow> ssh_rtl \<Rightarrow> int \<times> ssh_rtl" where
  "tx_process_end r sub s =
     (if sub = - ESHUTDOWN then
        (- ESHUTDOWN,
         ssh_rtl_complete_with_status r (- ESHUTDOWN)
           (ssh_rtl_pending_remove r (set_bit_rq SF_LOCKED r s)))
      else if sub \<noteq> 0 then (- EAGAIN, s)
      else (0, upd_rq r (\<lambda>q. q\<lparr>ptl_accepted := True\<rparr>) s))"

text \<open>
  The work function: at most ten attempts; \<open>sub i\<close> is the packet layer's answer in
  attempt \<open>i\<close>. The loop returns whether it ran out of attempts.
\<close>

fun tx_work_loop :: "nat \<Rightarrow> nat \<Rightarrow> (nat \<Rightarrow> int) \<Rightarrow> ssh_rtl \<Rightarrow> bool \<times> ssh_rtl" where
  "tx_work_loop 0 i sub s = (True, s)"
| "tx_work_loop (Suc n) i sub s =
     (case ssh_rtl_tx_try_process_one (sub i) s of (status, s1) \<Rightarrow>
        if status = - ENOENT \<or> status = - EBUSY then (False, s1)
        else if status = - ESHUTDOWN then (False, s1)
        else tx_work_loop n (Suc i) sub s1)"

definition ssh_rtl_tx_work_fn :: "(nat \<Rightarrow> int) \<Rightarrow> ssh_rtl \<Rightarrow> ssh_rtl" where
  "ssh_rtl_tx_work_fn sub s =
     (case tx_work_loop 10 0 sub s of
        (True, s1) \<Rightarrow> snd (ssh_rtl_tx_schedule s1)
      | (False, s1) \<Rightarrow> s1)"

subsection \<open>Submission\<close>

definition ssh_rtl_submit :: "nat \<Rightarrow> ssh_rtl \<Rightarrow> int \<times> ssh_rtl" where
  "ssh_rtl_submit r s =
     (if test_bit_rq TY_HAS_RESPONSE r s \<and> \<not> sequenced (requests s r) then (- EINVAL, s)
      else if ptl (requests s r) then (- EALREADY, s)
      else
        let s1 = upd_rq r (\<lambda>q. q\<lparr>ptl := True\<rparr>) s in
        if shutdown s1 then (- ESHUTDOWN, s1)
        else if test_bit_rq SF_LOCKED r s1 then (- EINVAL, s1)
        else
          let s2 = (set_bit_rq SF_QUEUED r s1)\<lparr>queue := queue s1 @ [r]\<rparr> in
          (0, snd (ssh_rtl_tx_schedule s2)))"

subsection \<open>Timeout bookkeeping\<close>

text \<open>
  The compare-and-swap loop of \<^verbatim>\<open>ssh_rtl_timeout_reaper_mod\<close>. \<open>old\<close> is the local
  variable, \<open>cur\<close> the stored \<^verbatim>\<open>rtx_timeout.expires\<close>: \<^verbatim>\<open>cmpxchg64\<close> stores
  \<open>expires\<close> when the stored value equals \<open>old\<close> and returns the value it found.
  The loop need not end, so a result is optional.
\<close>

partial_function (option) reaper_cas :: "int \<Rightarrow> int \<Rightarrow> int \<Rightarrow> int \<Rightarrow> (int \<times> int) option" where
  "reaper_cas aexp expires old cur =
     (if ktime_before aexp old
      then reaper_cas aexp expires cur (if cur = old then expires else cur)
      else Some (old, cur))"

definition ssh_rtl_timeout_reaper_mod :: "int \<Rightarrow> int \<Rightarrow> ssh_rtl \<Rightarrow> unit res" where
  "ssh_rtl_timeout_reaper_mod now expires s =
     (let delta = msecs_to_jiffies s (u32 (ktime_ms_delta expires now));
          aexp = ktime_add expires (SSH_RTL_REQUEST_TIMEOUT_RESOLUTION (HZ s))
      in case reaper_cas aexp expires (rtx_expires s) (rtx_expires s) of
           None \<Rightarrow> (Inl NoReturn, s)
         | Some (old, cur) \<Rightarrow>
             (Inr (),
              if old = expires then s\<lparr>rtx_expires := cur, rtx_reaper := Some delta\<rparr>
              else s\<lparr>rtx_expires := cur\<rparr>))"

definition ssh_rtl_timeout_start :: "nat \<Rightarrow> int \<Rightarrow> ssh_rtl \<Rightarrow> unit res" where
  "ssh_rtl_timeout_start r now s =
     (if \<not> ssh_request_rtl r s then (Inl NullDeref, s)
      else if test_bit_rq SF_LOCKED r s then (Inr (), s)
      else
        let s1 = upd_rq r (\<lambda>q. q\<lparr>timestamp := now\<rparr>) s in
        ssh_rtl_timeout_reaper_mod now (s64 (now + rtx_timeout s)) s1)"

subsection \<open>Completion by a response\<close>

text \<open>
  Without the error-injection configuration the hook is the constant \<^verbatim>\<open>false\<close>.
\<close>

definition ssh_rtl_should_drop_response :: bool where
  "ssh_rtl_should_drop_response = False"

datatype scan = Match nat | Dropped | NoMatch

text \<open>
  The walk over the pending list. \<^verbatim>\<open>ssh_request_get_rqid\<close> reads the packet's
  message buffer without a NULL check.
\<close>

fun complete_scan :: "16 word \<Rightarrow> nat list \<Rightarrow> ssh_rtl \<Rightarrow> scan res" where
  "complete_scan rqid [] s = (Inr NoMatch, s)"
| "complete_scan rqid (p # ps) s =
     (case data_rqid (requests s p) of
        None \<Rightarrow> (Inl NullDeref, s)
      | Some q \<Rightarrow>
          if q \<noteq> rqid then complete_scan rqid ps s
          else if ssh_rtl_should_drop_response then (Inr Dropped, s)
          else (Inr (Match p),
                list_del p (atomic_dec_pending (clear_bit_rq SF_PENDING p
                  (set_bit_rq SF_RSPRCVD p (set_bit_rq SF_LOCKED p s))))))"

definition ssh_rtl_complete :: "ssh_command \<Rightarrow> 8 word list \<Rightarrow> ssh_rtl \<Rightarrow> unit res" where
  "ssh_rtl_complete command command_data s =
     (case complete_scan (cmd_rqid command) (pending s) s of
        (Inl f, s1) \<Rightarrow> (Inl f, s1)
      | (Inr NoMatch, s1) \<Rightarrow> (Inr (), s1)
      | (Inr Dropped, s1) \<Rightarrow> (Inr (), s1)
      | (Inr (Match r), s1) \<Rightarrow>
          if test_bit_rq SF_COMPLETED r s1 then (Inr (), snd (ssh_rtl_tx_schedule s1))
          else
            let s2 = set_bit_rq SF_COMPLETED r s1 in
            if \<not> test_bit_rq SF_TRANSMITTED r s2 then
              (Inr (), snd (ssh_rtl_tx_schedule
                 (ssh_rtl_complete_with_status r (- EREMOTEIO) (ssh_rtl_queue_remove r s2))))
            else
              (Inr (), snd (ssh_rtl_tx_schedule
                 (ssh_rtl_complete_with_rsp r command command_data s2))))"

subsection \<open>Packet callback\<close>

definition ssh_rtl_packet_callback :: "nat \<Rightarrow> int \<Rightarrow> int \<Rightarrow> ssh_rtl \<Rightarrow> unit res" where
  "ssh_rtl_packet_callback r status now s =
     (if status \<noteq> 0 then
        let s1 = set_bit_rq SF_LOCKED r s in
        if test_bit_rq SF_COMPLETED r s1 then (Inr (), s1)
        else
          let s2 = set_bit_rq SF_COMPLETED r s1 in
          if \<not> ssh_request_rtl r s2 then (Inl NullDeref, s2)
          else (Inr (), snd (ssh_rtl_tx_schedule
                  (ssh_rtl_complete_with_status r status
                     (ssh_rtl_pending_remove r (ssh_rtl_queue_remove r s2)))))
      else
        let s1 = clear_bit_rq SF_TRANSMITTING r (set_bit_rq SF_TRANSMITTED r s) in
        if test_bit_rq TY_HAS_RESPONSE r s1 then ssh_rtl_timeout_start r now s1
        else
          let s2 = set_bit_rq SF_LOCKED r s1 in
          if test_bit_rq SF_COMPLETED r s2 then (Inr (), s2)
          else
            let s3 = set_bit_rq SF_COMPLETED r s2 in
            if \<not> ssh_request_rtl r s3 then (Inl NullDeref, s3)
            else (Inr (), snd (ssh_rtl_tx_schedule
                    (ssh_rtl_complete_with_status r 0 (ssh_rtl_pending_remove r s3)))))"

subsection \<open>Cancellation\<close>

definition ssh_rtl_cancel_nonpending :: "nat \<Rightarrow> ssh_rtl \<Rightarrow> bool res" where
  "ssh_rtl_cancel_nonpending r s =
     (let fixed = state (requests s r) \<inter> SSH_REQUEST_FLAGS_TY_MASK;
          old = state (requests s r);
          s1 = (if old = fixed then upd_rq r (\<lambda>q. q\<lparr>state := LOCKED_BIT_word s\<rparr>) s else s)
      in
      if old = {} \<and> \<not> ptl (requests s1 r) then
        (if test_bit_rq SF_COMPLETED r s1 then (Inr True, s1)
         else (Inr True,
               ssh_rtl_complete_with_status r (- ECANCELED) (set_bit_rq SF_COMPLETED r s1)))
      else if \<not> ssh_request_rtl r s1 then (Inl NullDeref, s1)
      else if \<not> test_bit_rq SF_QUEUED r s1 then (Inr False, s1)
      else
        let s2 = list_del r (set_bit_rq SF_LOCKED r (clear_bit_rq SF_QUEUED r s1)) in
        if test_bit_rq SF_COMPLETED r s2 then (Inr True, s2)
        else (Inr True,
              ssh_rtl_complete_with_status r (- ECANCELED) (set_bit_rq SF_COMPLETED r s2)))"

text \<open>
  \<^verbatim>\<open>ssh_ptl_cancel\<close> belongs to the packet layer. It may run the packet's completion
  callback before it returns: \<open>cb = Some status\<close> says that it does, with that status.
\<close>

definition ssh_ptl_cancel :: "int option \<Rightarrow> int \<Rightarrow> nat \<Rightarrow> ssh_rtl \<Rightarrow> unit res" where
  "ssh_ptl_cancel cb now r s =
     (case cb of None \<Rightarrow> (Inr (), s) | Some status \<Rightarrow> ssh_rtl_packet_callback r status now s)"

definition ssh_rtl_cancel_pending :: "int option \<Rightarrow> int \<Rightarrow> nat \<Rightarrow> ssh_rtl \<Rightarrow> bool res" where
  "ssh_rtl_cancel_pending cb now r s =
     (if test_bit_rq SF_LOCKED r s then (Inr True, s)
      else
        let s1 = set_bit_rq SF_LOCKED r s in
        if \<not> ssh_request_rtl r s1 then
          (if test_bit_rq SF_COMPLETED r s1 then (Inr True, s1)
           else (Inr True,
                 ssh_rtl_complete_with_status r (- ECANCELED) (set_bit_rq SF_COMPLETED r s1)))
        else
          (case ssh_ptl_cancel cb now r s1 of
             (Inl f, s2) \<Rightarrow> (Inl f, s2)
           | (Inr u, s2) \<Rightarrow>
               if test_bit_rq SF_COMPLETED r s2 then (Inr True, s2)
               else (Inr True,
                     ssh_rtl_complete_with_status r (- ECANCELED)
                       (ssh_rtl_pending_remove r
                          (ssh_rtl_queue_remove r (set_bit_rq SF_COMPLETED r s2))))))"

definition ssh_rtl_cancel :: "int option \<Rightarrow> int \<Rightarrow> nat \<Rightarrow> bool \<Rightarrow> ssh_rtl \<Rightarrow> bool res" where
  "ssh_rtl_cancel cb now r pend s =
     (if test_bit_rq SF_CANCELED r s then (Inr True, s)
      else
        let s1 = set_bit_rq SF_CANCELED r s in
        (case (if pend then ssh_rtl_cancel_pending cb now r s1
               else ssh_rtl_cancel_nonpending r s1) of
           (Inl f, s2) \<Rightarrow> (Inl f, s2)
         | (Inr canceled, s2) \<Rightarrow>
             (Inr canceled,
              if canceled \<and> ssh_request_rtl r s2 then snd (ssh_rtl_tx_schedule s2) else s2)))"

subsection \<open>Timeout reaper\<close>

definition ssh_request_get_expiration :: "nat \<Rightarrow> int \<Rightarrow> ssh_rtl \<Rightarrow> int" where
  "ssh_request_get_expiration r timeo s =
     (if timestamp (requests s r) \<noteq> KTIME_MAX
      then ktime_add (timestamp (requests s r)) timeo
      else KTIME_MAX)"

text \<open>
  The first loop of \<^verbatim>\<open>ssh_rtl_timeout_reap\<close>, under the pending lock: the arguments
  are the rest of the list, the next wake time and the claimed list so far.
\<close>

fun reap_scan ::
    "int \<Rightarrow> int \<Rightarrow> nat list \<Rightarrow> int \<Rightarrow> nat list \<Rightarrow> ssh_rtl \<Rightarrow> int \<times> nat list \<times> ssh_rtl" where
  "reap_scan now timeout [] next claimed s = (next, claimed, s)"
| "reap_scan now timeout (r # rs) next claimed s =
     (let expires = ssh_request_get_expiration r timeout s in
      if ktime_after expires now then
        reap_scan now timeout rs (if ktime_before expires next then expires else next) claimed s
      else if test_bit_rq SF_LOCKED r s then reap_scan now timeout rs next claimed s
      else
        reap_scan now timeout rs next (claimed @ [r])
          (list_del r (atomic_dec_pending (clear_bit_rq SF_PENDING r (set_bit_rq SF_LOCKED r s)))))"

text \<open>The second loop, over the claimed requests.\<close>

fun reap_claimed :: "nat list \<Rightarrow> ssh_rtl \<Rightarrow> ssh_rtl" where
  "reap_claimed [] s = s"
| "reap_claimed (r # rs) s =
     (if \<not> test_bit_rq SF_COMPLETED r s
      then reap_claimed rs
             (ssh_rtl_complete_with_status r (- ETIMEDOUT) (set_bit_rq SF_COMPLETED r s))
      else reap_claimed rs s)"

definition ssh_rtl_timeout_reap :: "int \<Rightarrow> ssh_rtl \<Rightarrow> unit res" where
  "ssh_rtl_timeout_reap now s =
     (let timeout = rtx_timeout s;
          s0 = s\<lparr>rtx_expires := KTIME_MAX\<rparr>
      in case reap_scan now timeout (pending s0) KTIME_MAX [] s0 of (next, claimed, s1) \<Rightarrow>
        let s2 = reap_claimed claimed s1;
            next' = max next (ktime_add now (SSH_RTL_REQUEST_TIMEOUT_RESOLUTION (HZ s2)))
        in (case (if next' \<noteq> KTIME_MAX then ssh_rtl_timeout_reaper_mod now next' s2
                  else (Inr (), s2)) of
              (Inl f, s3) \<Rightarrow> (Inl f, s3)
            | (Inr u, s3) \<Rightarrow> (Inr (), snd (ssh_rtl_tx_schedule s3))))"

subsection \<open>Initialisation and shutdown\<close>

text \<open>
  \<^verbatim>\<open>ssh_rtl_init\<close>; \<open>ptl_status\<close> is what \<^verbatim>\<open>ssh_ptl_init\<close> returns. The function
  does not write \<^verbatim>\<open>rtl->state\<close>.
\<close>

definition ssh_rtl_init :: "int \<Rightarrow> ssh_rtl \<Rightarrow> int \<times> ssh_rtl" where
  "ssh_rtl_init ptl_status s =
     (if ptl_status \<noteq> 0 then (ptl_status, s)
      else (0, s\<lparr>queue := [], pending := [], pending_count := 0, tx_work := False,
                 rtx_timeout := SSH_RTL_REQUEST_TIMEOUT, rtx_expires := KTIME_MAX,
                 rtx_reaper := None\<rparr>))"

text \<open>
  \<^verbatim>\<open>ssh_request_init\<close> with the two request flags it reads. The packet part
  (\<^verbatim>\<open>ssh_packet_init\<close>) leaves the packet unbound and without a message buffer.
  The object is new, so its recorded history is empty.
\<close>

definition ssh_request_init :: "nat \<Rightarrow> bool \<Rightarrow> bool \<Rightarrow> ssh_rtl \<Rightarrow> ssh_rtl" where
  "ssh_request_init r unsequenced has_response s =
     upd_rq r (\<lambda>q. q\<lparr>state := (if has_response then {TY_HAS_RESPONSE} else {}),
                     ptl := False, sequenced := \<not> unsequenced, data_rqid := None,
                     timestamp := KTIME_MAX, completions := [], ptl_accepted := False\<rparr>) s"

text \<open>The loops of \<^verbatim>\<open>ssh_rtl_shutdown\<close> that move the queue and the pending list to the
  claimed list, and the loop that completes the claimed requests.\<close>

fun shutdown_claim_queue :: "nat list \<Rightarrow> nat list \<Rightarrow> ssh_rtl \<Rightarrow> nat list \<times> ssh_rtl" where
  "shutdown_claim_queue [] claimed s = (claimed, s)"
| "shutdown_claim_queue (r # rs) claimed s =
     shutdown_claim_queue rs (claimed @ [r])
       (list_del r (clear_bit_rq SF_QUEUED r (set_bit_rq SF_LOCKED r s)))"

fun shutdown_claim_pending :: "nat list \<Rightarrow> nat list \<Rightarrow> ssh_rtl \<Rightarrow> nat list \<times> ssh_rtl" where
  "shutdown_claim_pending [] claimed s = (claimed, s)"
| "shutdown_claim_pending (r # rs) claimed s =
     shutdown_claim_pending rs (claimed @ [r])
       (list_del r (clear_bit_rq SF_PENDING r (set_bit_rq SF_LOCKED r s)))"

fun shutdown_complete :: "nat list \<Rightarrow> ssh_rtl \<Rightarrow> ssh_rtl" where
  "shutdown_complete [] s = s"
| "shutdown_complete (r # rs) s =
     (if \<not> test_bit_rq SF_COMPLETED r s
      then shutdown_complete rs
             (ssh_rtl_complete_with_status r (- ESHUTDOWN) (set_bit_rq SF_COMPLETED r s))
      else shutdown_complete rs s)"

text \<open>
  \<^verbatim>\<open>ssh_ptl_shutdown\<close> belongs to the packet layer; it completes the packets it still
  holds. \<open>cbs\<close> lists the packet callbacks it runs, in order, with their status.
\<close>

fun ssh_ptl_shutdown :: "(nat \<times> int) list \<Rightarrow> int \<Rightarrow> ssh_rtl \<Rightarrow> unit res" where
  "ssh_ptl_shutdown [] now s = (Inr (), s)"
| "ssh_ptl_shutdown ((r, status) # cbs) now s =
     (case ssh_rtl_packet_callback r status now s of
        (Inl f, s1) \<Rightarrow> (Inl f, s1)
      | (Inr u, s1) \<Rightarrow> ssh_ptl_shutdown cbs now s1)"

definition ssh_rtl_shutdown :: "(nat \<times> int) list \<Rightarrow> int \<Rightarrow> ssh_rtl \<Rightarrow> unit res" where
  "ssh_rtl_shutdown cbs now s =
     (let s1 = s\<lparr>shutdown := True\<rparr> in
      case shutdown_claim_queue (queue s1) [] s1 of (claimed, s2) \<Rightarrow>
        (case ssh_ptl_shutdown cbs now (s2\<lparr>tx_work := False\<rparr>) of
           (Inl f, s3) \<Rightarrow> (Inl f, s3)
         | (Inr u, s3) \<Rightarrow>
             let s4 = s3\<lparr>rtx_reaper := None\<rparr> in
             (case (if pending_count s4 \<noteq> 0
                    then shutdown_claim_pending (pending s4) claimed s4
                    else (claimed, s4)) of
                (claimed', s5) \<Rightarrow> (Inr (), shutdown_complete claimed' s5))))"

subsection \<open>Observation and concrete states\<close>

text \<open>The number of times the client's \<^verbatim>\<open>complete\<close> callback ran for a request.\<close>

definition ncompl :: "nat \<Rightarrow> ssh_rtl \<Rightarrow> nat" where
  "ncompl r s = length (completions (requests s r))"

text \<open>
  A zeroed layer with zeroed request objects, and the layer after \<^verbatim>\<open>ssh_rtl_init\<close>
  with two request objects initialised by \<^verbatim>\<open>ssh_request_init\<close> (sequenced, with
  response) whose messages carry the request ids 0x42 and 0x43. The concrete evaluations
  below start from it. Its timer frequency is 250 Hz; \<open>msecs_to_jiffies_250\<close> is the
  conversion for that frequency: four milliseconds to the jiffy, rounded up, and
  \<^verbatim>\<open>MAX_JIFFY_OFFSET\<close> for an argument that is negative as an \<^verbatim>\<open>int\<close>.
\<close>

definition msecs_to_jiffies_250 :: "int \<Rightarrow> int" where
  "msecs_to_jiffies_250 m = (if 2 ^ 31 \<le> m then 2 ^ 62 - 2 else (m + 3) div 4)"

definition zero_rtl :: "nat \<Rightarrow> (int \<Rightarrow> int) \<Rightarrow> flag set \<Rightarrow> ssh_rtl" where
  "zero_rtl hz m2j lw =
     \<lparr>requests = (\<lambda>_. \<lparr>state = {}, ptl = False, sequenced = False, data_rqid = None,
                         timestamp = 0, completions = [], ptl_accepted = False\<rparr>),
      shutdown = False, queue = [], pending = [], pending_count = 0, tx_work = False,
      rtx_timeout = 0, rtx_expires = 0, rtx_reaper = None, HZ = hz, msecs_to_jiffies = m2j,
      LOCKED_BIT_word = lw\<rparr>"

definition rtl_boot :: ssh_rtl where
  "rtl_boot =
     upd_rq 2 (\<lambda>q. q\<lparr>data_rqid := Some 0x43\<rparr>)
       (upd_rq 0 (\<lambda>q. q\<lparr>data_rqid := Some 0x42\<rparr>)
          (ssh_request_init 2 False True
             (ssh_request_init 0 False True (snd (ssh_rtl_init 0 (zero_rtl 250 msecs_to_jiffies_250 {}))))))"

definition rtl_queued :: ssh_rtl where
  "rtl_queued = snd (ssh_rtl_submit 0 rtl_boot)"

definition rtl_pending :: ssh_rtl where
  "rtl_pending = snd (ssh_rtl_tx_try_process_one 0 rtl_queued)"

definition rtl_acked :: ssh_rtl where
  "rtl_acked = snd (ssh_rtl_packet_callback 0 0 1000 rtl_pending)"

text \<open>
  The example layer with a flush request at address 4: queued on the idle layer, then
  handed to the packet layer; and queued while request 0 is pending.
\<close>

definition rtl_flush_queued :: ssh_rtl where
  "rtl_flush_queued =
     snd (ssh_rtl_submit 4 (set_bit_rq TY_FLUSH 4 (ssh_request_init 4 True False rtl_boot)))"

definition rtl_flush_pending :: ssh_rtl where
  "rtl_flush_pending = snd (ssh_rtl_tx_try_process_one 0 rtl_flush_queued)"

definition rtl_flush_blocked :: ssh_rtl where
  "rtl_flush_blocked =
     snd (ssh_rtl_submit 4
            (set_bit_rq TY_FLUSH 4 (ssh_request_init 4 True False rtl_pending)))"

text \<open>
  The example layer when the transmitter has put request 0 in the pending set and is about
  to call \<^verbatim>\<open>ssh_ptl_submit\<close>.
\<close>

definition rtl_transmitting :: ssh_rtl where
  "rtl_transmitting = snd (tx_process_begin rtl_queued)"

text \<open>
  What one pass of the reaper's first loop decides for a request: it is due when its
  expiration is not after the current time and the reaper wins the LOCKED bit; a due
  request is claimed.
\<close>

definition reap_due :: "int \<Rightarrow> int \<Rightarrow> ssh_rtl \<Rightarrow> nat \<Rightarrow> bool" where
  "reap_due now timeout s r =
     (\<not> ktime_after (ssh_request_get_expiration r timeout s) now
      \<and> \<not> test_bit_rq SF_LOCKED r s)"

definition reap_claim :: "nat \<Rightarrow> ssh_rtl \<Rightarrow> ssh_rtl" where
  "reap_claim r s =
     list_del r (atomic_dec_pending (clear_bit_rq SF_PENDING r (set_bit_rq SF_LOCKED r s)))"

subsection \<open>Runs of the layer\<close>

text \<open>
  The entry points of the layer, as they are called by clients, by the work queue and by
  the packet layer's threads. A run executes them one after the other; every call carries
  what the environment contributes to it (the answers of \<^verbatim>\<open>ssh_ptl_submit\<close>, the
  callback that \<^verbatim>\<open>ssh_ptl_cancel\<close> runs, the callbacks of \<^verbatim>\<open>ssh_ptl_shutdown\<close>, the
  current time). When the work queue starts a work item, the item is no longer queued.
\<close>

datatype event =
    Submit nat
  | TxWork "nat \<Rightarrow> int"
  | PacketCallback nat int int
  | RxResponse ssh_command "8 word list"
  | Reap int
  | Cancel "int option" int nat bool
  | Shutdown "(nat \<times> int) list" int

fun step :: "event \<Rightarrow> ssh_rtl \<Rightarrow> unit res" where
  "step (Submit r) s = (Inr (), snd (ssh_rtl_submit r s))"
| "step (TxWork sub) s = (Inr (), ssh_rtl_tx_work_fn sub (s\<lparr>tx_work := False\<rparr>))"
| "step (PacketCallback r status now) s = ssh_rtl_packet_callback r status now s"
| "step (RxResponse command command_data) s = ssh_rtl_complete command command_data s"
| "step (Reap now) s = ssh_rtl_timeout_reap now (s\<lparr>rtx_reaper := None\<rparr>)"
| "step (Cancel cb now r pend) s =
     (case ssh_rtl_cancel cb now r pend s of
        (Inl f, s1) \<Rightarrow> (Inl f, s1)
      | (Inr canceled, s1) \<Rightarrow> (Inr (), s1))"
| "step (Shutdown cbs now) s = ssh_rtl_shutdown cbs now s"

fun run :: "event list \<Rightarrow> ssh_rtl \<Rightarrow> ssh_rtl" where
  "run [] s = s"
| "run (e # es) s = run es (snd (step e s))"

text \<open>The requests for which \<^verbatim>\<open>ssh_rtl_submit\<close> returned 0 in a run.\<close>

fun accepted :: "event list \<Rightarrow> ssh_rtl \<Rightarrow> nat set" where
  "accepted [] s = {}"
| "accepted (Submit r # es) s =
     (if fst (ssh_rtl_submit r s) = 0 then {r} else {}) \<union> accepted es (snd (step (Submit r) s))"
| "accepted (e # es) s = accepted es (snd (step e s))"

text \<open>
  A layer as \<^verbatim>\<open>ssh_rtl_init\<close> leaves it, with request objects as
  \<^verbatim>\<open>ssh_request_init\<close> leaves them: only type bits set, unbound, no history.
\<close>

definition fresh :: "ssh_rtl \<Rightarrow> bool" where
  "fresh s =
     (queue s = [] \<and> pending s = [] \<and> pending_count s = 0
      \<and> (\<forall>r. state (requests s r) \<subseteq> SSH_REQUEST_FLAGS_TY_MASK
               \<and> \<not> ptl (requests s r) \<and> completions (requests s r) = []
               \<and> \<not> ptl_accepted (requests s r)))"

text \<open>
  What the layer relies on from the packet layer: it runs the completion callback of a
  packet on its own (also during its shutdown) only when it had accepted the packet, and
  inside \<^verbatim>\<open>ssh_ptl_cancel\<close> it reports success only for a packet it had accepted.
  A shutdown that is part of a run returns.
\<close>

fun env_ok :: "event \<Rightarrow> ssh_rtl \<Rightarrow> bool" where
  "env_ok (PacketCallback r status now) s = ptl_accepted (requests s r)"
| "env_ok (Cancel (Some status) now r pend) s = (status \<noteq> 0 \<or> ptl_accepted (requests s r))"
| "env_ok (Shutdown cbs now) s =
     ((\<forall>c\<in>set cbs. ptl_accepted (requests s (fst c)))
      \<and> fst (ssh_rtl_shutdown cbs now s) = Inr ())"
| "env_ok e s = True"

fun run_ok :: "event list \<Rightarrow> ssh_rtl \<Rightarrow> bool" where
  "run_ok [] s = True"
| "run_ok (e # es) s = (env_ok e s \<and> run_ok es (snd (step e s)))"

subsection \<open>Flush\<close>



text \<open>
  The structure of the completion bookkeeping. A request is in one of three conditions:
  not completed, completed with COMPLETED set, or completed by the transmitter when the
  packet layer refused the packet (that path does not set COMPLETED).
\<close>

definition refused :: "nat \<Rightarrow> ssh_rtl \<Rightarrow> bool" where
  "refused r s =
     (ncompl r s = 1 \<and> \<not> test_bit_rq SF_COMPLETED r s \<and> test_bit_rq SF_LOCKED r s
      \<and> \<not> ptl_accepted (requests s r)
      \<and> \<not> test_bit_rq SF_QUEUED r s \<and> \<not> test_bit_rq SF_PENDING r s)"

definition inv_lists :: "ssh_rtl \<Rightarrow> bool" where
  "inv_lists s =
     (distinct (pending s)
      \<and> (\<forall>r. test_bit_rq SF_PENDING r s \<longleftrightarrow> r \<in> set (pending s))
      \<and> (\<forall>r. test_bit_rq SF_QUEUED r s \<longleftrightarrow> r \<in> set (queue s))
      \<and> (\<forall>r. \<not> (test_bit_rq SF_QUEUED r s \<and> test_bit_rq SF_PENDING r s))
      \<and> (\<forall>r. test_bit_rq SF_QUEUED r s \<or> test_bit_rq SF_PENDING r s \<longrightarrow> ptl (requests s r))
      \<and> int (length (pending s)) \<le> pending_count s
      \<and> pending_count s \<le> SSH_RTL_MAX_PENDING)"

definition ok_rq :: "nat \<Rightarrow> ssh_rtl \<Rightarrow> bool" where
  "ok_rq r s =
     ((ncompl r s = 0 \<and> \<not> test_bit_rq SF_COMPLETED r s
       \<or> ncompl r s = 1 \<and> test_bit_rq SF_COMPLETED r s
       \<or> refused r s)
      \<and> (test_bit_rq SF_QUEUED r s \<or> test_bit_rq SF_PENDING r s \<longrightarrow> ncompl r s = 0)
      \<and> (ptl_accepted (requests s r) \<longrightarrow>
            ptl (requests s r) \<and> \<not> test_bit_rq SF_QUEUED r s)
      \<and> (test_bit_rq SF_COMPLETED r s \<longrightarrow> test_bit_rq SF_LOCKED r s))"

definition inv_compl :: "ssh_rtl \<Rightarrow> bool" where
  "inv_compl s = (\<forall>r. ok_rq r s)"

text \<open>
  A submitted request is settled when it is still queued or pending, or was completed.
\<close>

definition settled :: "nat \<Rightarrow> ssh_rtl \<Rightarrow> bool" where
  "settled r s =
     (test_bit_rq SF_QUEUED r s \<or> test_bit_rq SF_PENDING r s \<or> ncompl r s = 1)"

text \<open>
  Closed forms of what the transmitter, a matching response and the end of
  \<^verbatim>\<open>ssh_rtl_cancel_pending\<close> do to the layer; \<open>try_process_one_cases\<close>,
  \<open>complete_cases\<close> and \<open>cancel_pending_state\<close> relate them to the functions.
\<close>

definition tx_sent :: "int \<Rightarrow> nat \<Rightarrow> ssh_rtl \<Rightarrow> ssh_rtl" where
  "tx_sent sub p s =
     (let s1 = list_del p (clear_bit_rq SF_QUEUED p (set_bit_rq SF_TRANSMITTING p s));
          s2 = (atomic_inc_pending (set_bit_rq SF_PENDING p s1))\<lparr>pending := pending s1 @ [p]\<rparr>
      in if sub = - ESHUTDOWN
         then ssh_rtl_complete_with_status p (- ESHUTDOWN)
                (ssh_rtl_pending_remove p (set_bit_rq SF_LOCKED p s2))
         else if sub \<noteq> 0 then s2
         else upd_rq p (\<lambda>q. q\<lparr>ptl_accepted := True\<rparr>) s2)"

definition rx_done :: "ssh_command \<Rightarrow> 8 word list \<Rightarrow> nat \<Rightarrow> ssh_rtl \<Rightarrow> ssh_rtl" where
  "rx_done c d p s =
     (let s1 = list_del p (atomic_dec_pending (clear_bit_rq SF_PENDING p
                 (set_bit_rq SF_RSPRCVD p (set_bit_rq SF_LOCKED p s))))
      in if test_bit_rq SF_COMPLETED p s1 then snd (ssh_rtl_tx_schedule s1)
         else if \<not> test_bit_rq SF_TRANSMITTED p s1
         then snd (ssh_rtl_tx_schedule (ssh_rtl_complete_with_status p (- EREMOTEIO)
                (ssh_rtl_queue_remove p (set_bit_rq SF_COMPLETED p s1))))
         else snd (ssh_rtl_tx_schedule
                (ssh_rtl_complete_with_rsp p c d (set_bit_rq SF_COMPLETED p s1))))"

definition cancel_pending_end :: "nat \<Rightarrow> ssh_rtl \<Rightarrow> ssh_rtl" where
  "cancel_pending_end r s =
     (if test_bit_rq SF_COMPLETED r s then s
      else ssh_rtl_complete_with_status r (- ECANCELED)
             (ssh_rtl_pending_remove r (ssh_rtl_queue_remove r (set_bit_rq SF_COMPLETED r s))))"

subsection \<open>Basic facts\<close>

lemmas rq_defs = test_bit_rq_def set_bit_rq_def clear_bit_rq_def upd_rq_def list_del_def
  atomic_inc_pending_def atomic_dec_pending_def ssh_rtl_complete_with_status_def
  ssh_rtl_complete_with_rsp_def ssh_rtl_queue_remove_def ssh_rtl_pending_remove_def
  ssh_rtl_tx_schedule_def ssh_request_rtl_def

lemmas boot_defs = rtl_boot_def zero_rtl_def ssh_rtl_init_def ssh_request_init_def
  SSH_RTL_REQUEST_TIMEOUT_def KTIME_MAX_def ms_to_ktime_def s64_def

lemma upd_rq_fields [simp]:
  "requests (upd_rq r f s) = (requests s)(r := f (requests s r))"
  "shutdown (upd_rq r f s) = shutdown s"
  "queue (upd_rq r f s) = queue s"
  "pending (upd_rq r f s) = pending s"
  "pending_count (upd_rq r f s) = pending_count s"
  "tx_work (upd_rq r f s) = tx_work s"
  "rtx_timeout (upd_rq r f s) = rtx_timeout s"
  "rtx_expires (upd_rq r f s) = rtx_expires s"
  "rtx_reaper (upd_rq r f s) = rtx_reaper s"
  "HZ (upd_rq r f s) = HZ s"
  "msecs_to_jiffies (upd_rq r f s) = msecs_to_jiffies s"
  "LOCKED_BIT_word (upd_rq r f s) = LOCKED_BIT_word s"
  by (simp_all add: upd_rq_def)

lemma test_bit_set_bit [simp]:
  "test_bit_rq b r (set_bit_rq b' r' s) = (b = b' \<and> r = r' \<or> test_bit_rq b r s)"
  by (auto simp: test_bit_rq_def set_bit_rq_def)

lemma test_bit_clear_bit [simp]:
  "test_bit_rq b r (clear_bit_rq b' r' s) = (test_bit_rq b r s \<and> \<not> (b = b' \<and> r = r'))"
  by (auto simp: test_bit_rq_def clear_bit_rq_def)

lemma test_bit_list_del [simp]: "test_bit_rq b r (list_del x s) = test_bit_rq b r s"
  by (simp add: test_bit_rq_def list_del_def)

lemma test_bit_atomic [simp]:
  "test_bit_rq b r (atomic_inc_pending s) = test_bit_rq b r s"
  "test_bit_rq b r (atomic_dec_pending s) = test_bit_rq b r s"
  by (simp_all add: test_bit_rq_def atomic_inc_pending_def atomic_dec_pending_def)

lemma test_bit_complete_with_status [simp]:
  "test_bit_rq b r (ssh_rtl_complete_with_status x st s) = test_bit_rq b r s"
  by (simp add: test_bit_rq_def ssh_rtl_complete_with_status_def)

lemma test_bit_complete_with_rsp [simp]:
  "test_bit_rq b r (ssh_rtl_complete_with_rsp x c d s) = test_bit_rq b r s"
  by (simp add: test_bit_rq_def ssh_rtl_complete_with_rsp_def)

lemma test_bit_fields [simp]:
  "test_bit_rq b r (s\<lparr>queue := qv\<rparr>) = test_bit_rq b r s"
  "test_bit_rq b r (s\<lparr>pending := pv\<rparr>) = test_bit_rq b r s"
  "test_bit_rq b r (s\<lparr>tx_work := tv\<rparr>) = test_bit_rq b r s"
  "test_bit_rq b r (s\<lparr>rtx_expires := ev\<rparr>) = test_bit_rq b r s"
  "test_bit_rq b r (s\<lparr>rtx_reaper := rv\<rparr>) = test_bit_rq b r s"
  "test_bit_rq b r (s\<lparr>shutdown := sv\<rparr>) = test_bit_rq b r s"
  "test_bit_rq b r (s\<lparr>pending_count := cv\<rparr>) = test_bit_rq b r s"
  by (simp_all add: test_bit_rq_def)

lemma test_bit_tx_schedule [simp]:
  "test_bit_rq b r (snd (ssh_rtl_tx_schedule s)) = test_bit_rq b r s"
  by (simp add: ssh_rtl_tx_schedule_def)

lemma test_bit_queue_remove [simp]:
  "test_bit_rq b r (ssh_rtl_queue_remove x s) =
     (test_bit_rq b r s \<and> \<not> (b = SF_QUEUED \<and> r = x))"
  by (auto simp: ssh_rtl_queue_remove_def)

lemma test_bit_pending_remove [simp]:
  "test_bit_rq b r (ssh_rtl_pending_remove x s) =
     (test_bit_rq b r s \<and> \<not> (b = SF_PENDING \<and> r = x))"
  by (auto simp: ssh_rtl_pending_remove_def)

lemma test_bit_upd_other [simp]:
  "test_bit_rq b r (upd_rq x (\<lambda>q. q\<lparr>timestamp := t\<rparr>) s) = test_bit_rq b r s"
  "test_bit_rq b r (upd_rq x (\<lambda>q. q\<lparr>ptl := t'\<rparr>) s) = test_bit_rq b r s"
  by (simp_all add: test_bit_rq_def)

lemma requests_reaper_mod [simp]:
  "requests (snd (ssh_rtl_timeout_reaper_mod now e s)) = requests s"
  by (simp add: ssh_rtl_timeout_reaper_mod_def Let_def split: option.splits prod.splits)

lemma test_bit_reaper_mod [simp]:
  "test_bit_rq b r (snd (ssh_rtl_timeout_reaper_mod now e s)) = test_bit_rq b r s"
  by (simp add: test_bit_rq_def)

lemma test_bit_timeout_start [simp]:
  "test_bit_rq b r (snd (ssh_rtl_timeout_start x now s)) = test_bit_rq b r s"
  by (simp add: ssh_rtl_timeout_start_def Let_def)

lemma tx_schedule_fields [simp]:
  "requests (snd (ssh_rtl_tx_schedule s)) = requests s"
  "queue (snd (ssh_rtl_tx_schedule s)) = queue s"
  "pending (snd (ssh_rtl_tx_schedule s)) = pending s"
  "pending_count (snd (ssh_rtl_tx_schedule s)) = pending_count s"
  "shutdown (snd (ssh_rtl_tx_schedule s)) = shutdown s"
  by (simp_all add: ssh_rtl_tx_schedule_def)

lemma set_bit_fields [simp]:
  "queue (set_bit_rq b r s) = queue s"
  "pending (set_bit_rq b r s) = pending s"
  "pending_count (set_bit_rq b r s) = pending_count s"
  "shutdown (set_bit_rq b r s) = shutdown s"
  "queue (clear_bit_rq b r s) = queue s"
  "pending (clear_bit_rq b r s) = pending s"
  "pending_count (clear_bit_rq b r s) = pending_count s"
  "shutdown (clear_bit_rq b r s) = shutdown s"
  by (simp_all add: set_bit_rq_def clear_bit_rq_def)

lemma timeout_start_completions [simp]:
  "completions (requests (snd (ssh_rtl_timeout_start x now s)) r) = completions (requests s r)"
  by (simp add: ssh_rtl_timeout_start_def Let_def rq_defs)

lemma ncompl_frame [simp]:
  "ncompl r (set_bit_rq b x s) = ncompl r s"
  "ncompl r (snd (ssh_rtl_tx_schedule s)) = ncompl r s"
  by (simp_all add: ncompl_def rq_defs)

subsection \<open>Submission\<close>

text \<open>
  Claim C3. \<^verbatim>\<open>ssh_rtl_submit\<close> returns the first that applies of: \<open>-EINVAL\<close> when the
  request expects a response and its packet is not sequenced, \<open>-EALREADY\<close> when its packet
  is already bound to a packet layer, \<open>-ESHUTDOWN\<close> when the layer is shut down,
  \<open>-EINVAL\<close> when the request is locked, and otherwise 0; when it returns 0 the request
  has its QUEUED bit set and is the new tail of the queue.
\<close>

theorem ssh_rtl_submit_result:
  "fst (ssh_rtl_submit r s) =
     (if TY_HAS_RESPONSE \<in> state (requests s r) \<and> \<not> sequenced (requests s r) then - EINVAL
      else if ptl (requests s r) then - EALREADY
      else if shutdown s then - ESHUTDOWN
      else if SF_LOCKED \<in> state (requests s r) then - EINVAL
      else 0)
   \<and> (fst (ssh_rtl_submit r s) = 0 \<longrightarrow>
        SF_QUEUED \<in> state (requests (snd (ssh_rtl_submit r s)) r)
        \<and> queue (snd (ssh_rtl_submit r s)) = queue s @ [r])"
  by (simp add: ssh_rtl_submit_def Let_def test_bit_rq_def set_bit_rq_def)

theorem ssh_rtl_submit_result_witness:
  "fst (ssh_rtl_submit 0 rtl_boot) = 0
   \<and> SF_QUEUED \<in> state (requests (snd (ssh_rtl_submit 0 rtl_boot)) 0)
   \<and> queue (snd (ssh_rtl_submit 0 rtl_boot)) = [0]"
proof -
  have "fst (ssh_rtl_submit 0 rtl_boot) = 0"
    using ssh_rtl_submit_result [of 0 rtl_boot] by (simp add: boot_defs)
  moreover have "queue rtl_boot = []" by (simp add: boot_defs)
  ultimately show ?thesis using ssh_rtl_submit_result [of 0 rtl_boot] by simp
qed

subsection \<open>Dequeue\<close>

lemma tx_next_scan_locked_prefix:
  "\<forall>q\<in>set pre. test_bit_rq SF_LOCKED q s \<Longrightarrow> tx_next_scan (pre @ xs) s = tx_next_scan xs s"
  by (induction pre) simp_all

lemma tx_next_head:
  assumes "\<forall>q\<in>set pre. test_bit_rq SF_LOCKED q s" "\<not> test_bit_rq SF_LOCKED p s"
    "queue s = pre @ p # rest"
  shows "ssh_rtl_tx_next s =
     (if ssh_rtl_tx_can_process p s
      then (Inr p, list_del p (clear_bit_rq SF_QUEUED p (set_bit_rq SF_TRANSMITTING p s)))
      else (Inl (- EBUSY), s))"
  using assms by (simp add: ssh_rtl_tx_next_def tx_next_scan_locked_prefix)

lemma tx_work_busy:
  assumes "ssh_rtl_tx_next s = (Inl (- EBUSY), s)"
  shows "ssh_rtl_tx_work_fn sub s = s"
  using assms
  by (simp add: ssh_rtl_tx_work_fn_def ssh_rtl_tx_try_process_one_def eval_nat_numeral)

text \<open>
  Claim C7. Let \<open>p\<close> be the head of the queue as the transmitter sees it: the first
  request that is not locked. A flush request is eligible exactly when the pending count
  is zero, any other request exactly when the count is below \<^verbatim>\<open>SSH_RTL_MAX_PENDING\<close> = 3.
  An eligible head is dequeued (TRANSMITTING set, QUEUED cleared, unlinked). An
  ineligible head makes \<^verbatim>\<open>ssh_rtl_tx_next\<close> answer \<open>-EBUSY\<close> without skipping past it,
  and the whole run of the transmitter work changes nothing: every request behind it
  stays queued. In particular a flush request waiting at the head while the pending count
  is not zero blocks all later dequeues. A flush request that is itself pending blocks
  nothing: a head that is not a flush request is dequeued whenever the count is below 3,
  whatever the pending set holds.
\<close>

theorem ssh_rtl_tx_eligibility:
  assumes "\<forall>q\<in>set pre. test_bit_rq SF_LOCKED q s"
    and "\<not> test_bit_rq SF_LOCKED p s"
    and "queue s = pre @ p # rest"
  shows "(ssh_rtl_tx_can_process p s \<longleftrightarrow>
            (if TY_FLUSH \<in> state (requests s p) then pending_count s = 0
             else pending_count s < 3))
       \<and> (ssh_rtl_tx_can_process p s \<longrightarrow>
            ssh_rtl_tx_next s =
              (Inr p, list_del p (clear_bit_rq SF_QUEUED p (set_bit_rq SF_TRANSMITTING p s))))
       \<and> (\<not> ssh_rtl_tx_can_process p s \<longrightarrow>
            ssh_rtl_tx_next s = (Inl (- EBUSY), s) \<and> (\<forall>sub. ssh_rtl_tx_work_fn sub s = s))
       \<and> (TY_FLUSH \<in> state (requests s p) \<and> pending_count s \<noteq> 0 \<longrightarrow>
            (\<forall>sub. queue (ssh_rtl_tx_work_fn sub s) = pre @ p # rest))
       \<and> (TY_FLUSH \<notin> state (requests s p) \<and> pending_count s < 3 \<longrightarrow>
            fst (ssh_rtl_tx_next s) = Inr p \<and> p \<notin> set (queue (snd (ssh_rtl_tx_next s))))"
proof -
  have c: "ssh_rtl_tx_can_process p s \<longleftrightarrow>
            (if TY_FLUSH \<in> state (requests s p) then pending_count s = 0
             else pending_count s < 3)"
    by (simp add: ssh_rtl_tx_can_process_def test_bit_rq_def SSH_RTL_MAX_PENDING_def)
  have n: "ssh_rtl_tx_next s =
     (if ssh_rtl_tx_can_process p s
      then (Inr p, list_del p (clear_bit_rq SF_QUEUED p (set_bit_rq SF_TRANSMITTING p s)))
      else (Inl (- EBUSY), s))"
    by (rule tx_next_head [OF assms])
  have b: "\<not> ssh_rtl_tx_can_process p s \<Longrightarrow> ssh_rtl_tx_work_fn sub s = s" for sub
    using n by (simp add: tx_work_busy)
  show ?thesis using c n b assms(3) by (simp add: list_del_def)
qed

subsection \<open>Cancellation\<close>

lemma canceled_packet_callback [simp]:
  "test_bit_rq SF_CANCELED r (snd (ssh_rtl_packet_callback x st now s)) =
     test_bit_rq SF_CANCELED r s"
  by (simp add: ssh_rtl_packet_callback_def Let_def)

lemma canceled_ptl_cancel [simp]:
  "test_bit_rq SF_CANCELED r (snd (ssh_ptl_cancel cb now x s)) = test_bit_rq SF_CANCELED r s"
  by (simp add: ssh_ptl_cancel_def split: option.splits)

lemma canceled_cancel_pending [simp]:
  "test_bit_rq SF_CANCELED r (snd (ssh_rtl_cancel_pending cb now x s)) =
     test_bit_rq SF_CANCELED r s"
  by (simp add: ssh_rtl_cancel_pending_def Let_def case_prod_unfold split: sum.splits)

text \<open>
  With CANCELED set the state word differs from its type bits and is not zero, so the
  compare-and-swap of \<^verbatim>\<open>ssh_rtl_cancel_nonpending\<close> cannot succeed.
\<close>

lemma canceled_cancel_nonpending:
  assumes c: "test_bit_rq SF_CANCELED r s"
  shows "test_bit_rq SF_CANCELED r (snd (ssh_rtl_cancel_nonpending r s))"
proof -
  from c have "state (requests s r) \<noteq> state (requests s r) \<inter> SSH_REQUEST_FLAGS_TY_MASK"
    by (auto simp: test_bit_rq_def SSH_REQUEST_FLAGS_TY_MASK_def)
  moreover from c have "state (requests s r) \<noteq> {}" by (auto simp: test_bit_rq_def)
  ultimately show ?thesis using c
    by (simp add: ssh_rtl_cancel_nonpending_def Let_def)
qed

lemma canceled_after_cancel:
  "test_bit_rq SF_CANCELED r (snd (ssh_rtl_cancel cb now r pend s))"
  using canceled_cancel_nonpending [of r "set_bit_rq SF_CANCELED r s"]
  by (simp add: ssh_rtl_cancel_def Let_def case_prod_unfold split: sum.splits)

lemma packet_callback_no_fault:
  "ssh_request_rtl r s \<Longrightarrow> test_bit_rq SF_LOCKED r s \<Longrightarrow>
     fst (ssh_rtl_packet_callback r st now s) = Inr ()"
  by (simp add: ssh_rtl_packet_callback_def Let_def ssh_rtl_timeout_start_def rq_defs)

lemma cancel_pending_result: "fst (ssh_rtl_cancel_pending cb now r s) = Inr True"
proof (cases "test_bit_rq SF_LOCKED r s \<or> \<not> ssh_request_rtl r s")
  case True
  then show ?thesis
    by (auto simp: ssh_rtl_cancel_pending_def Let_def rq_defs)
next
  case False
  then have b: "ssh_request_rtl r (set_bit_rq SF_LOCKED r s)"
    by (simp add: rq_defs)
  have "fst (ssh_ptl_cancel cb now r (set_bit_rq SF_LOCKED r s)) = Inr ()"
    using packet_callback_no_fault [OF b, of _ now]
    by (cases cb) (simp_all add: ssh_ptl_cancel_def)
  with False b show ?thesis
    by (simp add: ssh_rtl_cancel_pending_def Let_def case_prod_unfold split: sum.splits)
qed

lemma ncompl_packet_callback_le:
  "ncompl r (snd (ssh_rtl_packet_callback r st now s)) \<le> Suc (ncompl r s)"
  by (simp add: ssh_rtl_packet_callback_def Let_def ncompl_def) (simp add: rq_defs)

lemma ncompl_packet_callback_completed:
  "\<not> test_bit_rq SF_COMPLETED r (snd (ssh_rtl_packet_callback r st now s)) \<Longrightarrow>
   ncompl r (snd (ssh_rtl_packet_callback r st now s)) = ncompl r s"
  by (simp add: ssh_rtl_packet_callback_def Let_def ncompl_def split: if_splits)
     (simp add: rq_defs)

lemma ncompl_cancel_pending:
  "ncompl r (snd (ssh_rtl_cancel_pending cb now r s)) \<le> Suc (ncompl r s)"
proof (cases cb)
  case None
  then show ?thesis
    by (simp add: ssh_rtl_cancel_pending_def Let_def ssh_ptl_cancel_def ncompl_def)
       (simp add: rq_defs)
next
  case (Some st)
  let ?s1 = "set_bit_rq SF_LOCKED r s"
  let ?s2 = "snd (ssh_rtl_packet_callback r st now ?s1)"
  have a: "ncompl r ?s2 \<le> Suc (ncompl r s)"
    using ncompl_packet_callback_le [of r st now ?s1] by simp
  have b: "\<not> test_bit_rq SF_COMPLETED r ?s2 \<Longrightarrow> ncompl r ?s2 = ncompl r s"
    using ncompl_packet_callback_completed [of r st now ?s1] by simp
  have c: "ncompl r (ssh_rtl_complete_with_status r (- ECANCELED)
             (ssh_rtl_pending_remove r (ssh_rtl_queue_remove r (set_bit_rq SF_COMPLETED r ?s2))))
           = Suc (ncompl r ?s2)"
    by (simp add: ncompl_def rq_defs)
  have d: "ncompl r (ssh_rtl_complete_with_status r (- ECANCELED) (set_bit_rq SF_COMPLETED r ?s1))
           = Suc (ncompl r s)"
    by (simp add: ncompl_def rq_defs)
  show ?thesis using Some a b c d
    by (simp add: ssh_rtl_cancel_pending_def Let_def ssh_ptl_cancel_def case_prod_unfold
        split: sum.splits)
qed

lemma ncompl_cancel_nonpending:
  "ncompl r (snd (ssh_rtl_cancel_nonpending r s)) \<le> Suc (ncompl r s)"
  by (simp add: ssh_rtl_cancel_nonpending_def Let_def ncompl_def) (simp add: rq_defs)

lemma ncompl_cancel:
  "ncompl r (snd (ssh_rtl_cancel cb now r pend s)) \<le> Suc (ncompl r s)"
  using ncompl_cancel_pending [of r cb now "set_bit_rq SF_CANCELED r s"]
    ncompl_cancel_nonpending [of r "set_bit_rq SF_CANCELED r s"]
  by (simp add: ssh_rtl_cancel_def Let_def case_prod_unfold split: sum.splits)

text \<open>
  Claim C9. \<^verbatim>\<open>ssh_rtl_cancel\<close> is idempotent. Whatever the first call did (for either
  value of the pending hint, whatever the packet layer did inside it, and also when it
  faulted), it ran the \<^verbatim>\<open>complete\<close> callback of the request at most once, and every
  further call returns true at once and changes nothing: in particular it does not run
  \<^verbatim>\<open>complete\<close> again.
\<close>

theorem ssh_rtl_cancel_idempotent:
  "ssh_rtl_cancel cb2 now2 r p2 (snd (ssh_rtl_cancel cb1 now1 r p1 s))
     = (Inr True, snd (ssh_rtl_cancel cb1 now1 r p1 s))
   \<and> ncompl r (snd (ssh_rtl_cancel cb1 now1 r p1 s)) \<le> Suc (ncompl r s)"
  using canceled_after_cancel [of r cb1 now1 p1 s] ncompl_cancel [of r cb1 now1 p1 s]
  by (simp add: ssh_rtl_cancel_def)

text \<open>
  Claim C10. With the pending hint set, \<^verbatim>\<open>ssh_rtl_cancel\<close> returns true for every
  request in every state, whatever the packet layer does inside \<^verbatim>\<open>ssh_ptl_cancel\<close>;
  it never faults on that branch.
\<close>

theorem ssh_rtl_cancel_pending_hint_true:
  "fst (ssh_rtl_cancel cb now r True s) = Inr True"
  using cancel_pending_result [of cb now r "set_bit_rq SF_CANCELED r s"]
  by (simp add: ssh_rtl_cancel_def Let_def case_prod_unfold split: sum.splits)

subsection \<open>The concrete states\<close>

lemma rtl_boot_fields [simp]:
  "requests rtl_boot 0 = \<lparr>state = {TY_HAS_RESPONSE}, ptl = False, sequenced = True,
      data_rqid = Some 0x42, timestamp = 9223372036854775807, completions = [], ptl_accepted = False\<rparr>"
  "requests rtl_boot 2 = \<lparr>state = {TY_HAS_RESPONSE}, ptl = False, sequenced = True,
      data_rqid = Some 0x43, timestamp = 9223372036854775807, completions = [], ptl_accepted = False\<rparr>"
  "shutdown rtl_boot = False" "queue rtl_boot = []" "pending rtl_boot = []"
  "pending_count rtl_boot = 0" "tx_work rtl_boot = False"
  "rtx_timeout rtl_boot = 3000000000" "rtx_expires rtl_boot = 9223372036854775807"
  "rtx_reaper rtl_boot = None" "HZ rtl_boot = 250" "LOCKED_BIT_word rtl_boot = {}"
  "msecs_to_jiffies rtl_boot = msecs_to_jiffies_250"
  by (simp_all add: boot_defs)

lemmas eval_defs = rq_defs ssh_rtl_queue_empty_def insert_Diff_if s32_def s64_def Let_def
  SSH_RTL_MAX_PENDING_def KTIME_MAX_def
  ktime_before_def ktime_after_def ktime_add_def ktime_sub_def ktime_ms_delta_def c_div_def
  SSH_RTL_REQUEST_TIMEOUT_RESOLUTION_def ms_to_ktime_def u32_def msecs_to_jiffies_250_def

lemma rtl_queued_fields [simp]:
  "requests rtl_queued 0 = \<lparr>state = {SF_QUEUED, TY_HAS_RESPONSE}, ptl = True, sequenced = True,
      data_rqid = Some 0x42, timestamp = 9223372036854775807, completions = [], ptl_accepted = False\<rparr>"
  "requests rtl_queued 2 = requests rtl_boot 2"
  "shutdown rtl_queued = False" "queue rtl_queued = [0]" "pending rtl_queued = []"
  "pending_count rtl_queued = 0" "tx_work rtl_queued = True"
  "rtx_timeout rtl_queued = 3000000000" "rtx_expires rtl_queued = 9223372036854775807"
  "rtx_reaper rtl_queued = None" "HZ rtl_queued = 250" "LOCKED_BIT_word rtl_queued = {}"
  "msecs_to_jiffies rtl_queued = msecs_to_jiffies_250"
  by (simp_all add: rtl_queued_def ssh_rtl_submit_def eval_defs)

lemma rtl_pending_fields [simp]:
  "requests rtl_pending 0 = \<lparr>state = {SF_PENDING, SF_TRANSMITTING, TY_HAS_RESPONSE}, ptl = True,
      sequenced = True, data_rqid = Some 0x42, timestamp = 9223372036854775807,
      completions = [], ptl_accepted = True\<rparr>"
  "requests rtl_pending 2 = requests rtl_boot 2"
  "shutdown rtl_pending = False" "queue rtl_pending = []" "pending rtl_pending = [0]"
  "pending_count rtl_pending = 1" "tx_work rtl_pending = True"
  "rtx_timeout rtl_pending = 3000000000" "rtx_expires rtl_pending = 9223372036854775807"
  "rtx_reaper rtl_pending = None" "HZ rtl_pending = 250" "LOCKED_BIT_word rtl_pending = {}"
  "msecs_to_jiffies rtl_pending = msecs_to_jiffies_250"
  by (simp_all add: rtl_pending_def ssh_rtl_tx_try_process_one_def ssh_rtl_tx_next_def
      ssh_rtl_tx_can_process_def ssh_rtl_tx_pending_push_def eval_defs insert_commute)

lemma rtl_acked_fields [simp]:
  "requests rtl_acked 0 = \<lparr>state = {SF_PENDING, SF_TRANSMITTED, TY_HAS_RESPONSE}, ptl = True,
      sequenced = True, data_rqid = Some 0x42, timestamp = 1000, completions = [],
      ptl_accepted = True\<rparr>"
  "requests rtl_acked 2 = requests rtl_boot 2"
  "shutdown rtl_acked = False" "queue rtl_acked = []" "pending rtl_acked = [0]"
  "pending_count rtl_acked = 1" "tx_work rtl_acked = True"
  "rtx_timeout rtl_acked = 3000000000" "rtx_expires rtl_acked = 3000001000"
  "rtx_reaper rtl_acked = Some 750" "HZ rtl_acked = 250" "LOCKED_BIT_word rtl_acked = {}"
  "msecs_to_jiffies rtl_acked = msecs_to_jiffies_250"
  by (simp_all add: rtl_acked_def ssh_rtl_packet_callback_def ssh_rtl_timeout_start_def
      ssh_rtl_timeout_reaper_mod_def reaper_cas.simps eval_defs insert_commute)

subsection \<open>Dequeue with a flush request\<close>

lemma rtl_flush_queued_fields [simp]:
  "requests rtl_flush_queued 4 = \<lparr>state = {SF_QUEUED, TY_FLUSH}, ptl = True,
      sequenced = False, data_rqid = None, timestamp = 9223372036854775807,
      completions = [], ptl_accepted = False\<rparr>"
  "requests rtl_flush_queued 0 = requests rtl_boot 0"
  "shutdown rtl_flush_queued = False" "queue rtl_flush_queued = [4]"
  "pending rtl_flush_queued = []" "pending_count rtl_flush_queued = 0"
  by (simp_all add: rtl_flush_queued_def ssh_rtl_submit_def ssh_request_init_def eval_defs
      insert_commute)

lemma rtl_flush_pending_fields [simp]:
  "requests rtl_flush_pending 4 = \<lparr>state = {SF_PENDING, SF_TRANSMITTING, TY_FLUSH},
      ptl = True, sequenced = False, data_rqid = None, timestamp = 9223372036854775807,
      completions = [], ptl_accepted = True\<rparr>"
  "requests rtl_flush_pending 0 = requests rtl_boot 0"
  "shutdown rtl_flush_pending = False" "queue rtl_flush_pending = []"
  "pending rtl_flush_pending = [4]" "pending_count rtl_flush_pending = 1"
  by (simp_all add: rtl_flush_pending_def ssh_rtl_tx_try_process_one_def ssh_rtl_tx_next_def
      ssh_rtl_tx_can_process_def ssh_rtl_tx_pending_push_def eval_defs insert_commute)

lemma rtl_flush_blocked_fields [simp]:
  "requests rtl_flush_blocked 4 = \<lparr>state = {SF_QUEUED, TY_FLUSH}, ptl = True,
      sequenced = False, data_rqid = None, timestamp = 9223372036854775807,
      completions = [], ptl_accepted = False\<rparr>"
  "queue rtl_flush_blocked = [4]" "pending rtl_flush_blocked = [0]"
  "pending_count rtl_flush_blocked = 1"
  by (simp_all add: rtl_flush_blocked_def ssh_rtl_submit_def ssh_request_init_def eval_defs
      insert_commute)

text \<open>
  On the example layer a request at the head of an idle layer is dequeued, and a flush
  request queued while request 0 is pending is not: the transmitter answers \<open>-EBUSY\<close>
  and leaves the queue as it is.
\<close>

theorem ssh_rtl_tx_eligibility_witness:
  "ssh_rtl_tx_can_process 0 (snd (ssh_rtl_submit 0 rtl_boot))
   \<and> fst (ssh_rtl_tx_next (snd (ssh_rtl_submit 0 rtl_boot))) = Inr 0
   \<and> queue (snd (ssh_rtl_tx_next (snd (ssh_rtl_submit 0 rtl_boot)))) = []
   \<and> queue rtl_flush_blocked = [4] \<and> TY_FLUSH \<in> state (requests rtl_flush_blocked 4)
   \<and> pending_count rtl_flush_blocked = 1
   \<and> \<not> ssh_rtl_tx_can_process 4 rtl_flush_blocked
   \<and> fst (ssh_rtl_tx_next rtl_flush_blocked) = Inl (- EBUSY)
   \<and> queue (ssh_rtl_tx_work_fn (\<lambda>i. 0) rtl_flush_blocked) = [4]"
proof -
  let ?s = "snd (ssh_rtl_submit 0 rtl_boot)"
  have q: "queue ?s = [] @ 0 # []"
    by (simp add: ssh_rtl_submit_def Let_def boot_defs rq_defs)
  have l: "\<not> test_bit_rq SF_LOCKED 0 ?s"
    by (simp add: ssh_rtl_submit_def Let_def boot_defs rq_defs)
  have e: "\<forall>q\<in>set []. test_bit_rq SF_LOCKED q s" for s by simp
  have f: "TY_FLUSH \<notin> state (requests ?s 0)" "pending_count ?s = 0"
    by (simp_all add: ssh_rtl_submit_def Let_def boot_defs rq_defs)
  have a: "ssh_rtl_tx_can_process 0 ?s \<and> fst (ssh_rtl_tx_next ?s) = Inr 0
      \<and> queue (snd (ssh_rtl_tx_next ?s)) = []"
    using ssh_rtl_tx_eligibility [OF e l q] f q by (simp add: list_del_def)
  have q': "queue rtl_flush_blocked = [] @ 4 # []" by simp
  have l': "\<not> test_bit_rq SF_LOCKED 4 rtl_flush_blocked" by (simp add: test_bit_rq_def)
  have b: "\<not> ssh_rtl_tx_can_process 4 rtl_flush_blocked
      \<and> fst (ssh_rtl_tx_next rtl_flush_blocked) = Inl (- EBUSY)
      \<and> queue (ssh_rtl_tx_work_fn (\<lambda>i. 0) rtl_flush_blocked) = [4]"
    using ssh_rtl_tx_eligibility [OF e l' q'] by simp
  show ?thesis using a b by simp
qed

text \<open>
  Claim C7 as the specification words it ends with a pending flush that blocks all later
  dequeues. The flush request 4 is in the pending set and not completed; request 0 is
  submitted after it, and the transmitter dequeues request 0 and puts it in the pending
  set beside the flush request.
\<close>

theorem ssh_rtl_tx_eligibility_counterexample:
  "TY_FLUSH \<in> state (requests rtl_flush_pending 4)
   \<and> pending rtl_flush_pending = [4]
   \<and> completions (requests rtl_flush_pending 4) = []
   \<and> fst (ssh_rtl_submit 0 rtl_flush_pending) = 0
   \<and> queue (snd (ssh_rtl_submit 0 rtl_flush_pending)) = [0]
   \<and> fst (ssh_rtl_tx_next (snd (ssh_rtl_submit 0 rtl_flush_pending))) = Inr 0
   \<and> pending (snd (ssh_rtl_tx_try_process_one 0 (snd (ssh_rtl_submit 0 rtl_flush_pending))))
       = [4, 0]
   \<and> completions (requests
        (snd (ssh_rtl_tx_try_process_one 0 (snd (ssh_rtl_submit 0 rtl_flush_pending)))) 4) = []"
  by (simp add: ssh_rtl_submit_def ssh_rtl_tx_try_process_one_def ssh_rtl_tx_next_def
      ssh_rtl_tx_can_process_def ssh_rtl_tx_pending_push_def eval_defs)

subsection \<open>The two halves of a transmission attempt\<close>

lemma tx_process_split:
  "ssh_rtl_tx_try_process_one sub s =
     (case tx_process_begin s of
        (Inl e, s1) \<Rightarrow> (e, s1)
      | (Inr r, s1) \<Rightarrow> tx_process_end r sub s1)"
  by (simp add: ssh_rtl_tx_try_process_one_def tx_process_begin_def tx_process_end_def
      case_prod_unfold split: sum.splits)

lemma rtl_transmitting_fields [simp]:
  "fst (tx_process_begin rtl_queued) = Inr 0"
  "requests rtl_transmitting 0 = \<lparr>state = {SF_PENDING, SF_TRANSMITTING, TY_HAS_RESPONSE},
      ptl = True, sequenced = True, data_rqid = Some 0x42, timestamp = 9223372036854775807,
      completions = [], ptl_accepted = False\<rparr>"
  "queue rtl_transmitting = []" "pending rtl_transmitting = [0]"
  "pending_count rtl_transmitting = 1"
  by (simp_all add: rtl_transmitting_def tx_process_begin_def ssh_rtl_tx_next_def
      ssh_rtl_tx_can_process_def ssh_rtl_tx_pending_push_def eval_defs insert_commute)

subsection \<open>Completion by a response\<close>

lemma complete_scan_prefix:
  "\<forall>p\<in>set pre. \<exists>q. data_rqid (requests s p) = Some q \<and> q \<noteq> rqid \<Longrightarrow>
     complete_scan rqid (pre @ xs) s = complete_scan rqid xs s"
  by (induction pre) auto

lemma complete_scan_match:
  assumes "\<forall>p\<in>set pre. \<exists>q. data_rqid (requests s p) = Some q \<and> q \<noteq> rqid"
    and "data_rqid (requests s r) = Some rqid"
    and "pending s = pre @ r # rest"
  shows "complete_scan rqid (pending s) s =
     (Inr (Match r),
      list_del r (atomic_dec_pending (clear_bit_rq SF_PENDING r
        (set_bit_rq SF_RSPRCVD r (set_bit_rq SF_LOCKED r s)))))"
  using assms by (simp add: complete_scan_prefix ssh_rtl_should_drop_response_def)

text \<open>
  Claim C5. Let the dispatcher match a response to the pending request \<open>r\<close>: every
  request before \<open>r\<close> in the pending list carries another request id, \<open>r\<close> carries
  the id of the command. Let it win the completion race: COMPLETED is not yet set. Then
  \<open>r\<close> leaves the pending set (LOCKED and RSPRCVD set, PENDING cleared, counter
  decremented, unlinked) and COMPLETED is set. If TRANSMITTED is not set, \<open>r\<close> is taken
  off the queue (QUEUED cleared) and \<^verbatim>\<open>complete\<close> runs once, with no response and
  status \<open>-EREMOTEIO\<close>; otherwise \<^verbatim>\<open>complete\<close> runs once with the command, its payload
  and status 0.
\<close>

theorem ssh_rtl_complete_response:
  assumes "\<forall>p\<in>set pre. \<exists>q. data_rqid (requests s p) = Some q \<and> q \<noteq> cmd_rqid command"
    and "data_rqid (requests s r) = Some (cmd_rqid command)"
    and "pending s = pre @ r # rest"
    and "\<not> test_bit_rq SF_COMPLETED r s"
  shows "fst (ssh_rtl_complete command data s) = Inr ()
     \<and> (let s' = snd (ssh_rtl_complete command data s) in
          r \<notin> set (pending s') \<and> pending_count s' = s32 (pending_count s - 1)
        \<and> test_bit_rq SF_LOCKED r s' \<and> test_bit_rq SF_RSPRCVD r s'
        \<and> test_bit_rq SF_COMPLETED r s' \<and> \<not> test_bit_rq SF_PENDING r s'
        \<and> (if \<not> test_bit_rq SF_TRANSMITTED r s
            then r \<notin> set (queue s') \<and> \<not> test_bit_rq SF_QUEUED r s'
               \<and> completions (requests s' r) = completions (requests s r) @ [(None, - EREMOTEIO)]
            else completions (requests s' r)
                   = completions (requests s r) @ [(Some (command, data), 0)]))"
  using assms(4)
  apply (simp add: ssh_rtl_complete_def complete_scan_match [OF assms(1-3)] Let_def)
  apply (simp add: rq_defs)
  done

theorem ssh_rtl_complete_response_witness:
  "fst (ssh_rtl_complete \<lparr>cmd_rqid = 0x42, cmd_cid = 1\<rparr> [0xDE, 0xAD] rtl_pending) = Inr ()
   \<and> completions (requests
         (snd (ssh_rtl_complete \<lparr>cmd_rqid = 0x42, cmd_cid = 1\<rparr> [0xDE, 0xAD] rtl_pending)) 0)
       = [(None, - EREMOTEIO)]
   \<and> completions (requests
         (snd (ssh_rtl_complete \<lparr>cmd_rqid = 0x42, cmd_cid = 1\<rparr> [0xDE, 0xAD] rtl_acked)) 0)
       = [(Some (\<lparr>cmd_rqid = 0x42, cmd_cid = 1\<rparr>, [0xDE, 0xAD]), 0)]"
proof -
  let ?c = "\<lparr>cmd_rqid = 0x42, cmd_cid = 1\<rparr>"
  have e: "\<forall>p\<in>set []. \<exists>q. data_rqid (requests s p) = Some q \<and> q \<noteq> cmd_rqid ?c" for s
    by simp
  have p: "data_rqid (requests rtl_pending 0) = Some (cmd_rqid ?c)"
    "pending rtl_pending = [] @ 0 # []" "\<not> test_bit_rq SF_COMPLETED 0 rtl_pending"
    "\<not> test_bit_rq SF_TRANSMITTED 0 rtl_pending"
    by (simp_all add: test_bit_rq_def)
  have a: "data_rqid (requests rtl_acked 0) = Some (cmd_rqid ?c)"
    "pending rtl_acked = [] @ 0 # []" "\<not> test_bit_rq SF_COMPLETED 0 rtl_acked"
    "test_bit_rq SF_TRANSMITTED 0 rtl_acked"
    by (simp_all add: test_bit_rq_def)
  show ?thesis
    using ssh_rtl_complete_response [OF e p(1-3), of "[0xDE, 0xAD]"]
      ssh_rtl_complete_response [OF e a(1-3), of "[0xDE, 0xAD]"] p(4) a(4)
    by (simp add: Let_def)
qed

subsection \<open>Arming the reaper\<close>

lemma reaper_cas_result:
  assumes "\<not> ktime_before aexp expires"
  shows "reaper_cas aexp expires old old =
           (if ktime_before aexp old then Some (expires, expires) else Some (old, old))"
proof (cases "ktime_before aexp old")
  case False
  then show ?thesis by (subst reaper_cas.simps) simp
next
  case True
  with assms have ne: "expires \<noteq> old" by (auto simp: ktime_before_def)
  have 3: "reaper_cas aexp expires expires expires = Some (expires, expires)"
    using assms by (subst reaper_cas.simps) simp
  have 2: "reaper_cas aexp expires old expires = Some (expires, expires)"
    using True ne 3 by (subst reaper_cas.simps) simp
  show ?thesis using True 2 by (subst reaper_cas.simps) simp
qed

lemma resolution_bounds:
  "50000000 \<le> SSH_RTL_REQUEST_TIMEOUT_RESOLUTION hz"
  "SSH_RTL_REQUEST_TIMEOUT_RESOLUTION hz \<le> 2000000000"
proof -
  let ?m = "max (2000 div int hz) 50"
  have a: "50 \<le> ?m" by simp
  have "(2000::int) div int hz = int (2000 div hz)" by (simp add: zdiv_int)
  moreover have "2000 div hz \<le> 2000" by (rule div_le_dividend)
  ultimately have "2000 div int hz \<le> 2000" by simp
  then have b: "?m \<le> 2000" by simp
  have c: "s64 (?m * 1000000) = ?m * 1000000"
    using a b by (simp add: s64_def)
  show "50000000 \<le> SSH_RTL_REQUEST_TIMEOUT_RESOLUTION hz"
    "SSH_RTL_REQUEST_TIMEOUT_RESOLUTION hz \<le> 2000000000"
    using a b unfolding SSH_RTL_REQUEST_TIMEOUT_RESOLUTION_def ms_to_ktime_def c by simp_all
qed

lemma s64_id: "- (2 ^ 63) \<le> x \<Longrightarrow> x < 2 ^ 63 \<Longrightarrow> s64 x = x"
  by (simp add: s64_def)

text \<open>
  Claim C8, as the code has it. Let the requested expiration plus the resolution
  \<^verbatim>\<open>ms_to_ktime(max(2000 / HZ, 50))\<close> not overflow. \<^verbatim>\<open>ssh_rtl_timeout_reaper_mod\<close>
  returns, and it replaces the stored \<^verbatim>\<open>expires\<close> by the requested expiration exactly
  when the requested expiration plus the resolution is earlier than the stored one;
  whenever the store then holds the requested expiration (the exchange succeeded, or it
  held it already) the reaper work is rescheduled for the delta in milliseconds between
  the expiration and now, converted to \<^verbatim>\<open>unsigned int\<close> and from there to jiffies by
  \<^verbatim>\<open>msecs_to_jiffies\<close>. The resolution widens the comparison only: it is not added to
  the scheduled delta.
\<close>

theorem ssh_rtl_timeout_reaper_mod_effect:
  assumes "- (2 ^ 63) \<le> expires"
    and "expires + SSH_RTL_REQUEST_TIMEOUT_RESOLUTION (HZ s) < 2 ^ 63"
  shows "ssh_rtl_timeout_reaper_mod now expires s =
     (Inr (),
      if expires + SSH_RTL_REQUEST_TIMEOUT_RESOLUTION (HZ s) < rtx_expires s
      then s\<lparr>rtx_expires := expires,
             rtx_reaper := Some (msecs_to_jiffies s (u32 (ktime_ms_delta expires now)))\<rparr>
      else if rtx_expires s = expires
      then s\<lparr>rtx_reaper := Some (msecs_to_jiffies s (u32 (ktime_ms_delta expires now)))\<rparr>
      else s)"
proof -
  let ?res = "SSH_RTL_REQUEST_TIMEOUT_RESOLUTION (HZ s)"
  have r: "0 < ?res" using resolution_bounds(1) [of "HZ s"] by simp
  have a: "ktime_add expires ?res = expires + ?res"
    using assms r by (simp add: ktime_add_def s64_id)
  have nb: "\<not> ktime_before (expires + ?res) expires"
    using r by (simp add: ktime_before_def)
  show ?thesis
    using r by (simp add: ssh_rtl_timeout_reaper_mod_def Let_def a reaper_cas_result [OF nb]
        ktime_before_def)
qed

theorem ssh_rtl_timeout_reaper_mod_effect_witness:
  "- (2 ^ 63) \<le> (3000000000::int)
   \<and> 3000000000 + SSH_RTL_REQUEST_TIMEOUT_RESOLUTION (HZ rtl_boot) < 2 ^ 63
   \<and> fst (ssh_rtl_timeout_reaper_mod 0 3000000000 rtl_boot) = Inr ()
   \<and> rtx_expires (snd (ssh_rtl_timeout_reaper_mod 0 3000000000 rtl_boot)) = 3000000000
   \<and> rtx_reaper (snd (ssh_rtl_timeout_reaper_mod 0 3000000000 rtl_boot)) = Some 750"
proof -
  have a: "- (2 ^ 63) \<le> (3000000000::int)" by simp
  have b: "3000000000 + SSH_RTL_REQUEST_TIMEOUT_RESOLUTION (HZ rtl_boot) < 2 ^ 63"
    by (simp add: eval_defs)
  have c: "3000000000 + SSH_RTL_REQUEST_TIMEOUT_RESOLUTION (HZ rtl_boot) < rtx_expires rtl_boot"
    by (simp add: eval_defs)
  have d: "msecs_to_jiffies_250 (u32 (ktime_ms_delta 3000000000 0)) = 750"
    by (simp add: eval_defs)
  show ?thesis
    using ssh_rtl_timeout_reaper_mod_effect [OF a b, of 0] a b c d by simp
qed

text \<open>
  Claim C8 as the specification words it fails twice. With the stored expiration one
  nanosecond after the requested one, the requested one is earlier and yet nothing is
  exchanged. And on a freshly initialised layer the work is scheduled for the plain delta
  of 3000 ms (750 jiffies), not for the delta plus the floor of 50 ms (763 jiffies).
\<close>

theorem ssh_rtl_timeout_reaper_mod_counterexample:
  "ktime_before 3000000000 (rtx_expires (rtl_boot\<lparr>rtx_expires := 3000000001\<rparr>))
   \<and> rtx_expires (snd (ssh_rtl_timeout_reaper_mod 0 3000000000
                          (rtl_boot\<lparr>rtx_expires := 3000000001\<rparr>))) \<noteq> 3000000000
   \<and> rtx_reaper (snd (ssh_rtl_timeout_reaper_mod 0 3000000000 rtl_boot))
        = Some (msecs_to_jiffies_250 (u32 (ktime_ms_delta 3000000000 0)))
   \<and> rtx_reaper (snd (ssh_rtl_timeout_reaper_mod 0 3000000000 rtl_boot))
        \<noteq> Some (msecs_to_jiffies_250
                   (u32 (ktime_ms_delta 3000000000 0 + max (2000 div int (HZ rtl_boot)) 50)))"
  by (simp add: ssh_rtl_timeout_reaper_mod_def reaper_cas.simps eval_defs)

subsection \<open>The reaper\<close>

lemma reap_claim_other:
  "x \<noteq> r \<Longrightarrow> requests (reap_claim r s) x = requests s x"
  by (simp add: reap_claim_def rq_defs)

lemma expiration_claim_other:
  "x \<noteq> r \<Longrightarrow> ssh_request_get_expiration x t (reap_claim r s) = ssh_request_get_expiration x t s"
  by (simp add: ssh_request_get_expiration_def reap_claim_other)

lemma reap_due_claim_other:
  "x \<noteq> r \<Longrightarrow> reap_due now t (reap_claim r s) x = reap_due now t s x"
  by (simp add: reap_due_def expiration_claim_other test_bit_rq_def reap_claim_other)




lemma reap_due_not_after:
  "ktime_after (ssh_request_get_expiration r t s) now \<Longrightarrow> \<not> reap_due now t s r"
  by (simp add: reap_due_def)

lemma reap_scan_step:
  "reap_scan now t (r # rs) next cl s =
     (if reap_due now t s r then reap_scan now t rs next (cl @ [r]) (reap_claim r s)
      else if ktime_after (ssh_request_get_expiration r t s) now
      then reap_scan now t rs (min (ssh_request_get_expiration r t s) next) cl s
      else reap_scan now t rs next cl s)"
  by (auto simp: Let_def reap_due_def reap_claim_def ktime_before_def min_def)

lemma reap_scan_requests_other:
  "r \<notin> set rs \<Longrightarrow> requests (snd (snd (reap_scan now t rs next cl s))) r = requests s r"
proof (induction rs arbitrary: "next" cl s)
  case Nil
  then show ?case by simp
next
  case (Cons x rs)
  then show ?case
    by (simp only: reap_scan_step) (simp add: reap_claim_other)
qed

lemma reap_due_filter_claim:
  "x \<notin> set rs \<Longrightarrow> filter (reap_due now t (reap_claim x s)) rs = filter (reap_due now t s) rs"
  by (intro filter_cong refl reap_due_claim_other) auto

lemma reap_scan_claimed:
  "distinct rs \<Longrightarrow>
     fst (snd (reap_scan now t rs next cl s)) = cl @ filter (reap_due now t s) rs"
proof (induction rs arbitrary: "next" cl s)
  case Nil
  then show ?case by simp
next
  case (Cons x rs)
  then show ?case
    by (simp only: reap_scan_step) (simp add: reap_due_filter_claim)
qed

lemma reap_scan_requests_in:
  "distinct rs \<Longrightarrow> r \<in> set rs \<Longrightarrow>
     requests (snd (snd (reap_scan now t rs next cl s))) r =
       (if reap_due now t s r
        then (requests s r)\<lparr>state := insert SF_LOCKED (state (requests s r)) - {SF_PENDING}\<rparr>
        else requests s r)"
proof (induction rs arbitrary: "next" cl s)
  case Nil
  then show ?case by simp
next
  case (Cons x rs)
  show ?case
  proof (cases "r = x")
    case True
    with Cons.prems have "r \<notin> set rs" by simp
    moreover have "requests (reap_claim x s) x =
        (requests s x)\<lparr>state := insert SF_LOCKED (state (requests s x)) - {SF_PENDING}\<rparr>"
      by (simp add: reap_claim_def rq_defs)
    ultimately show ?thesis using True
      by (simp only: reap_scan_step) (simp add: reap_scan_requests_other)
  next
    case False
    with Cons.prems have "r \<in> set rs" "distinct rs" by simp_all
    then show ?thesis using False Cons.IH
      by (simp only: reap_scan_step) (simp add: reap_due_claim_other reap_claim_other)
  qed
qed





lemma reap_claimed_other:
  "r \<notin> set cl \<Longrightarrow> requests (reap_claimed cl s) r = requests s r"
  by (induction cl arbitrary: s) (simp_all add: rq_defs)

lemma reap_claimed_in:
  "distinct cl \<Longrightarrow> r \<in> set cl \<Longrightarrow>
     requests (reap_claimed cl s) r =
       (if test_bit_rq SF_COMPLETED r s then requests s r
        else (requests s r)\<lparr>state := insert SF_COMPLETED (state (requests s r)),
               completions := completions (requests s r) @ [(None, - ETIMEDOUT)]\<rparr>)"
proof (induction cl arbitrary: s)
  case Nil
  then show ?case by simp
next
  case (Cons x cl)
  show ?case
  proof (cases "r = x")
    case True
    with Cons.prems have "r \<notin> set cl" by simp
    then show ?thesis using True by (simp add: reap_claimed_other) (simp add: rq_defs)
  next
    case False
    with Cons.prems have "r \<in> set cl" "distinct cl" by simp_all
    then show ?thesis using False Cons.IH by (simp add: rq_defs)
  qed
qed

lemma reap_claimed_fields [simp]:
  "pending (reap_claimed cl s) = pending s"
  "pending_count (reap_claimed cl s) = pending_count s"
  "queue (reap_claimed cl s) = queue s"
  "HZ (reap_claimed cl s) = HZ s"
  by (induction cl arbitrary: s) (simp_all add: rq_defs)

lemma reaper_mod_fields [simp]:
  "pending (snd (ssh_rtl_timeout_reaper_mod now e s)) = pending s"
  "pending_count (snd (ssh_rtl_timeout_reaper_mod now e s)) = pending_count s"
  "queue (snd (ssh_rtl_timeout_reaper_mod now e s)) = queue s"
  by (simp_all add: ssh_rtl_timeout_reaper_mod_def Let_def split: option.splits prod.splits)

lemma reap_due_expires_field [simp]:
  "reap_due now t (s\<lparr>rtx_expires := e\<rparr>) r = reap_due now t s r"
  by (simp add: reap_due_def ssh_request_get_expiration_def)

lemma reap_due_expires_field_fun [simp]:
  "reap_due now t (s\<lparr>rtx_expires := e\<rparr>) = reap_due now t s"
  by (rule ext) simp

lemma expiration_expires_field [simp]:
  "ssh_request_get_expiration r t (s\<lparr>rtx_expires := e\<rparr>) = ssh_request_get_expiration r t s"
  by (simp add: ssh_request_get_expiration_def)

lemma reap_state:
  "requests (snd (ssh_rtl_timeout_reap now s)) =
     requests (reap_claimed
        (fst (snd (reap_scan now (rtx_timeout s) (pending s) KTIME_MAX []
                     (s\<lparr>rtx_expires := KTIME_MAX\<rparr>))))
        (snd (snd (reap_scan now (rtx_timeout s) (pending s) KTIME_MAX []
                     (s\<lparr>rtx_expires := KTIME_MAX\<rparr>)))))"
  "pending (snd (ssh_rtl_timeout_reap now s)) =
     pending (snd (snd (reap_scan now (rtx_timeout s) (pending s) KTIME_MAX []
                          (s\<lparr>rtx_expires := KTIME_MAX\<rparr>))))"
  "pending_count (snd (ssh_rtl_timeout_reap now s)) =
     pending_count (snd (snd (reap_scan now (rtx_timeout s) (pending s) KTIME_MAX []
                                (s\<lparr>rtx_expires := KTIME_MAX\<rparr>))))"
  by (simp_all add: ssh_rtl_timeout_reap_def Let_def case_prod_unfold split: sum.splits)



subsection \<open>The lists and the pending counter\<close>

lemma ptl_frame [simp]:
  "ptl (requests (set_bit_rq b r s) x) = ptl (requests s x)"
  "ptl (requests (clear_bit_rq b r s) x) = ptl (requests s x)"
  "ptl (requests (list_del r s) x) = ptl (requests s x)"
  "ptl (requests (atomic_inc_pending s) x) = ptl (requests s x)"
  "ptl (requests (atomic_dec_pending s) x) = ptl (requests s x)"
  "ptl (requests (ssh_rtl_complete_with_status r st s) x) = ptl (requests s x)"
  "ptl (requests (ssh_rtl_complete_with_rsp r c d s) x) = ptl (requests s x)"
  "ptl (requests (ssh_rtl_queue_remove r s) x) = ptl (requests s x)"
  "ptl (requests (ssh_rtl_pending_remove r s) x) = ptl (requests s x)"
  by (simp_all add: rq_defs)

lemma ptl_accepted_frame [simp]:
  "ptl_accepted (requests (set_bit_rq b r s) x) = ptl_accepted (requests s x)"
  "ptl_accepted (requests (clear_bit_rq b r s) x) = ptl_accepted (requests s x)"
  "ptl_accepted (requests (list_del r s) x) = ptl_accepted (requests s x)"
  "ptl_accepted (requests (atomic_inc_pending s) x) = ptl_accepted (requests s x)"
  "ptl_accepted (requests (atomic_dec_pending s) x) = ptl_accepted (requests s x)"
  "ptl_accepted (requests (ssh_rtl_complete_with_status r st s) x) = ptl_accepted (requests s x)"
  "ptl_accepted (requests (ssh_rtl_complete_with_rsp r c d s) x) = ptl_accepted (requests s x)"
  "ptl_accepted (requests (ssh_rtl_queue_remove r s) x) = ptl_accepted (requests s x)"
  "ptl_accepted (requests (ssh_rtl_pending_remove r s) x) = ptl_accepted (requests s x)"
  by (simp_all add: rq_defs)

lemma ncompl_frame2 [simp]:
  "ncompl x (clear_bit_rq b r s) = ncompl x s"
  "ncompl x (list_del r s) = ncompl x s"
  "ncompl x (atomic_inc_pending s) = ncompl x s"
  "ncompl x (atomic_dec_pending s) = ncompl x s"
  "ncompl x (ssh_rtl_queue_remove r s) = ncompl x s"
  "ncompl x (ssh_rtl_pending_remove r s) = ncompl x s"
  "ncompl x (ssh_rtl_complete_with_status r st s) = (if x = r then Suc (ncompl x s) else ncompl x s)"
  "ncompl x (ssh_rtl_complete_with_rsp r c d s) = (if x = r then Suc (ncompl x s) else ncompl x s)"
  by (simp_all add: ncompl_def rq_defs)

lemma lists_frame [simp]:
  "queue (list_del r s) = removeAll r (queue s)"
  "pending (list_del r s) = removeAll r (pending s)"
  "pending_count (list_del r s) = pending_count s"
  "queue (atomic_inc_pending s) = queue s"
  "pending (atomic_inc_pending s) = pending s"
  "pending_count (atomic_inc_pending s) = s32 (pending_count s + 1)"
  "queue (atomic_dec_pending s) = queue s"
  "pending (atomic_dec_pending s) = pending s"
  "pending_count (atomic_dec_pending s) = s32 (pending_count s - 1)"
  "queue (ssh_rtl_complete_with_status r st s) = queue s"
  "pending (ssh_rtl_complete_with_status r st s) = pending s"
  "pending_count (ssh_rtl_complete_with_status r st s) = pending_count s"
  "queue (ssh_rtl_complete_with_rsp r c d s) = queue s"
  "pending (ssh_rtl_complete_with_rsp r c d s) = pending s"
  "pending_count (ssh_rtl_complete_with_rsp r c d s) = pending_count s"
  by (simp_all add: rq_defs)

lemma s32_small: "- 2147483648 \<le> x \<Longrightarrow> x < 2147483648 \<Longrightarrow> s32 x = x"
  by (simp add: s32_def)

text \<open>Steps that touch neither list, nor the counter, nor the QUEUED and PENDING bits.\<close>

lemma inv_lists_frame:
  assumes "inv_lists s"
    and "queue s' = queue s" "pending s' = pending s" "pending_count s' = pending_count s"
    and "\<And>r. test_bit_rq SF_QUEUED r s' = test_bit_rq SF_QUEUED r s"
    and "\<And>r. test_bit_rq SF_PENDING r s' = test_bit_rq SF_PENDING r s"
    and "\<And>r. ptl (requests s r) \<Longrightarrow> ptl (requests s' r)"
  shows "inv_lists s'"
  using assms(1,7) unfolding inv_lists_def assms(2-6) by blast

lemma inv_lists_set_bit [simp]:
  "b \<noteq> SF_QUEUED \<Longrightarrow> b \<noteq> SF_PENDING \<Longrightarrow> inv_lists (set_bit_rq b r s) = inv_lists s"
  "b \<noteq> SF_QUEUED \<Longrightarrow> b \<noteq> SF_PENDING \<Longrightarrow> inv_lists (clear_bit_rq b r s) = inv_lists s"
  by (simp_all add: inv_lists_def)

lemma inv_lists_complete [simp]:
  "inv_lists (ssh_rtl_complete_with_status r st s) = inv_lists s"
  "inv_lists (ssh_rtl_complete_with_rsp r c d s) = inv_lists s"
  "inv_lists (snd (ssh_rtl_tx_schedule s)) = inv_lists s"
  by (simp_all add: inv_lists_def)

lemma inv_lists_queue_remove: "inv_lists s \<Longrightarrow> inv_lists (ssh_rtl_queue_remove r s)"
  unfolding inv_lists_def ssh_rtl_queue_remove_def
  by (auto simp: distinct_removeAll)

lemma length_removeAll_distinct:
  "distinct xs \<Longrightarrow> x \<in> set xs \<Longrightarrow> int (length (removeAll x xs)) = int (length xs) - 1"
  by (induction xs) auto

lemma inv_lists_pending_remove: "inv_lists s \<Longrightarrow> inv_lists (ssh_rtl_pending_remove r s)"
  unfolding inv_lists_def ssh_rtl_pending_remove_def SSH_RTL_MAX_PENDING_def
  by (auto simp: distinct_removeAll length_removeAll_distinct s32_small)

lemma inv_lists_submit: "inv_lists s \<Longrightarrow> inv_lists (snd (ssh_rtl_submit r s))"
  unfolding inv_lists_def ssh_rtl_submit_def
  by (auto simp: Let_def rq_defs)

lemma tx_next_scan_Inl: "tx_next_scan qs s = (Inl e, s') \<Longrightarrow> s' = s"
  by (induction qs) (auto split: if_splits)

lemma tx_next_scan_Inr:
  "tx_next_scan qs s = (Inr p, s') \<Longrightarrow>
     p \<in> set qs \<and> \<not> test_bit_rq SF_LOCKED p s \<and> ssh_rtl_tx_can_process p s
     \<and> s' = list_del p (clear_bit_rq SF_QUEUED p (set_bit_rq SF_TRANSMITTING p s))"
  by (induction qs) (auto split: if_splits)

lemma inv_lists_dequeue:
  assumes "inv_lists s" "p \<in> set (queue s)"
  shows "inv_lists (list_del p (clear_bit_rq SF_QUEUED p (set_bit_rq SF_TRANSMITTING p s)))"
  using assms unfolding inv_lists_def by (auto simp: distinct_removeAll)

lemma inv_lists_pending_push:
  assumes "inv_lists s" "\<not> test_bit_rq SF_QUEUED r s" "ptl (requests s r)"
    "pending_count s < SSH_RTL_MAX_PENDING"
  shows "inv_lists (snd (ssh_rtl_tx_pending_push r s))"
  using assms unfolding inv_lists_def ssh_rtl_tx_pending_push_def SSH_RTL_MAX_PENDING_def
  by (auto simp: s32_small)

lemma can_process_count:
  "ssh_rtl_tx_can_process p s \<Longrightarrow> 0 \<le> pending_count s \<Longrightarrow> pending_count s < SSH_RTL_MAX_PENDING"
  by (auto simp: ssh_rtl_tx_can_process_def SSH_RTL_MAX_PENDING_def split: if_splits)

lemma inv_lists_count_nonneg: "inv_lists s \<Longrightarrow> 0 \<le> pending_count s"
  unfolding inv_lists_def by linarith

lemma pending_push_test_bit:
  "test_bit_rq b x (snd (ssh_rtl_tx_pending_push r s)) \<Longrightarrow> b \<noteq> SF_PENDING \<Longrightarrow> test_bit_rq b x s"
  by (auto simp: ssh_rtl_tx_pending_push_def split: if_splits)

lemma inv_lists_try_process_one:
  assumes i: "inv_lists s"
  shows "inv_lists (snd (ssh_rtl_tx_try_process_one sub s))"
proof (cases "ssh_rtl_tx_next s")
  case (Pair a s1)
  show ?thesis
  proof (cases a)
    case (Inl e)
    with Pair have "s1 = s" by (auto simp: ssh_rtl_tx_next_def dest: tx_next_scan_Inl)
    with Pair Inl i show ?thesis by (simp add: ssh_rtl_tx_try_process_one_def)
  next
    case (Inr p)
    with Pair have n: "p \<in> set (queue s)" "ssh_rtl_tx_can_process p s"
      "s1 = list_del p (clear_bit_rq SF_QUEUED p (set_bit_rq SF_TRANSMITTING p s))"
      by (auto simp: ssh_rtl_tx_next_def dest: tx_next_scan_Inr)
    have i1: "inv_lists s1" using inv_lists_dequeue [OF i n(1)] n(3) by simp
    have q1: "\<not> test_bit_rq SF_QUEUED p s1" using n(3) by simp
    have b1: "ptl (requests s1 p)" using i n(1,3) by (auto simp: inv_lists_def)
    have c1: "pending_count s1 < SSH_RTL_MAX_PENDING"
      using can_process_count [OF n(2) inv_lists_count_nonneg [OF i]] n(3) by simp
    let ?s2 = "snd (ssh_rtl_tx_pending_push p s1)"
    have i2: "inv_lists ?s2" by (rule inv_lists_pending_push [OF i1 q1 b1 c1])
    have i3: "inv_lists (ssh_rtl_complete_with_status p (- ESHUTDOWN)
                  (ssh_rtl_pending_remove p (set_bit_rq SF_LOCKED p ?s2)))"
      using i2 by (simp add: inv_lists_pending_remove)
    have i4: "inv_lists (upd_rq p (\<lambda>q. q\<lparr>ptl_accepted := True\<rparr>) ?s2)"
      by (rule inv_lists_frame [OF i2]) (auto simp: test_bit_rq_def)
    show ?thesis using Pair Inr i2 i3 i4
      by (simp add: ssh_rtl_tx_try_process_one_def case_prod_unfold)
  qed
qed

lemma inv_lists_tx_work_loop:
  "inv_lists s \<Longrightarrow> inv_lists (snd (tx_work_loop n i sub s))"
proof (induction n arbitrary: i s)
  case 0
  then show ?case by simp
next
  case (Suc n)
  from Suc.prems have "inv_lists (snd (ssh_rtl_tx_try_process_one (sub i) s))"
    by (rule inv_lists_try_process_one)
  with Suc.IH show ?case by (simp add: case_prod_unfold)
qed

lemma inv_lists_tx_work_fn:
  assumes "inv_lists s"
  shows "inv_lists (ssh_rtl_tx_work_fn sub (s\<lparr>tx_work := False\<rparr>))"
proof -
  have "inv_lists (s\<lparr>tx_work := False\<rparr>)"
    by (rule inv_lists_frame [OF assms]) simp_all
  then have "inv_lists (snd (tx_work_loop 10 0 sub (s\<lparr>tx_work := False\<rparr>)))"
    by (rule inv_lists_tx_work_loop)
  then show ?thesis by (simp add: ssh_rtl_tx_work_fn_def case_prod_unfold split: bool.splits)
qed

lemma inv_lists_reaper_mod:
  "inv_lists s \<Longrightarrow> inv_lists (snd (ssh_rtl_timeout_reaper_mod now e s))"
  by (erule inv_lists_frame)
     (simp_all add: ssh_rtl_timeout_reaper_mod_def Let_def test_bit_rq_def
       split: option.splits prod.splits)

lemma inv_lists_timeout_start:
  "inv_lists s \<Longrightarrow> inv_lists (snd (ssh_rtl_timeout_start r now s))"
proof -
  assume i: "inv_lists s"
  have "inv_lists (upd_rq r (\<lambda>q. q\<lparr>timestamp := now\<rparr>) s)"
    by (rule inv_lists_frame [OF i]) (auto simp: test_bit_rq_def)
  then show ?thesis using i
    by (simp add: ssh_rtl_timeout_start_def Let_def inv_lists_reaper_mod)
qed

lemma inv_lists_packet_callback:
  "inv_lists s \<Longrightarrow> inv_lists (snd (ssh_rtl_packet_callback r st now s))"
  unfolding ssh_rtl_packet_callback_def Let_def
  by (auto intro!: inv_lists_timeout_start inv_lists_pending_remove inv_lists_queue_remove)

lemma inv_lists_unpend:
  assumes "inv_lists s" "p \<in> set (pending s)"
  shows "inv_lists (list_del p (atomic_dec_pending (clear_bit_rq SF_PENDING p s)))"
  using assms unfolding inv_lists_def SSH_RTL_MAX_PENDING_def
  by (auto simp: distinct_removeAll length_removeAll_distinct s32_small)

lemma complete_scan_same:
  "complete_scan rqid ps s = (a, s') \<Longrightarrow> (\<And>p. a \<noteq> Inr (Match p)) \<Longrightarrow> s' = s"
  by (induction ps) (auto split: option.splits if_splits)

lemma complete_scan_Match:
  "complete_scan rqid ps s = (Inr (Match p), s') \<Longrightarrow>
     p \<in> set ps \<and> data_rqid (requests s p) = Some rqid
     \<and> s' = list_del p (atomic_dec_pending (clear_bit_rq SF_PENDING p
               (set_bit_rq SF_RSPRCVD p (set_bit_rq SF_LOCKED p s))))"
  by (induction ps) (auto split: option.splits if_splits)

lemma inv_lists_complete_scan:
  assumes i: "inv_lists s"
  shows "inv_lists (snd (complete_scan rqid (pending s) s))"
proof (cases "complete_scan rqid (pending s) s")
  case (Pair a s')
  show ?thesis
  proof (cases "\<exists>p. a = Inr (Match p)")
    case True
    then obtain p where a: "a = Inr (Match p)" by blast
    from complete_scan_Match [OF Pair [unfolded a]] have
      p: "p \<in> set (pending s)" and
      s': "s' = list_del p (atomic_dec_pending (clear_bit_rq SF_PENDING p
               (set_bit_rq SF_RSPRCVD p (set_bit_rq SF_LOCKED p s))))" by simp_all
    let ?s1 = "set_bit_rq SF_RSPRCVD p (set_bit_rq SF_LOCKED p s)"
    have "inv_lists ?s1" using i by simp
    moreover have "p \<in> set (pending ?s1)" using p by simp
    ultimately show ?thesis using Pair s' by (simp add: inv_lists_unpend)
  next
    case False
    with complete_scan_same [OF Pair] have "s' = s" by blast
    with Pair i show ?thesis by simp
  qed
qed

lemma inv_lists_complete_rx:
  assumes i: "inv_lists s"
  shows "inv_lists (snd (ssh_rtl_complete c d s))"
  using inv_lists_complete_scan [OF i, of "cmd_rqid c"]
  by (auto simp: ssh_rtl_complete_def Let_def case_prod_unfold inv_lists_queue_remove
      split: sum.splits scan.splits)

lemma inv_lists_reap_scan:
  "inv_lists s \<Longrightarrow> distinct rs \<Longrightarrow> set rs \<subseteq> set (pending s) \<Longrightarrow>
     inv_lists (snd (snd (reap_scan now t rs next cl s)))"
proof (induction rs arbitrary: "next" cl s)
  case Nil
  then show ?case by simp
next
  case (Cons x rs)
  have i1: "inv_lists (reap_claim x s)"
    using Cons.prems inv_lists_unpend [of "set_bit_rq SF_LOCKED x s" x]
    by (simp add: reap_claim_def)
  have s1: "set rs \<subseteq> set (pending (reap_claim x s))"
    using Cons.prems by (auto simp: reap_claim_def)
  from Cons.prems have d: "distinct rs" and s0: "set rs \<subseteq> set (pending s)" by simp_all
  show ?case
    using Cons.IH [OF i1 d s1] Cons.IH [OF Cons.prems(1) d s0]
    by (simp only: reap_scan_step split: if_splits) simp
qed

lemma inv_lists_reap_claimed: "inv_lists s \<Longrightarrow> inv_lists (reap_claimed cl s)"
  by (induction cl arbitrary: s) simp_all

lemma inv_lists_reap:
  assumes i: "inv_lists s"
  shows "inv_lists (snd (ssh_rtl_timeout_reap now (s\<lparr>rtx_reaper := None\<rparr>)))"
proof -
  let ?s0 = "s\<lparr>rtx_reaper := None, rtx_expires := KTIME_MAX\<rparr>"
  have i0: "inv_lists ?s0" by (rule inv_lists_frame [OF i]) simp_all
  have d: "distinct (pending ?s0)" using i by (simp add: inv_lists_def)
  have "inv_lists (snd (snd (reap_scan now (rtx_timeout s) (pending ?s0) KTIME_MAX [] ?s0)))"
    by (rule inv_lists_reap_scan [OF i0 d]) simp
  then show ?thesis
    by (simp add: ssh_rtl_timeout_reap_def Let_def case_prod_unfold inv_lists_reap_claimed
        inv_lists_reaper_mod split: sum.splits)
qed

text \<open>With CANCELED set the compare-and-swap fails.\<close>

lemma cancel_nonpending_canceled:
  assumes c: "test_bit_rq SF_CANCELED r s"
  shows "ssh_rtl_cancel_nonpending r s =
     (if \<not> ssh_request_rtl r s then (Inl NullDeref, s)
      else if \<not> test_bit_rq SF_QUEUED r s then (Inr False, s)
      else
        let s2 = list_del r (set_bit_rq SF_LOCKED r (clear_bit_rq SF_QUEUED r s)) in
        if test_bit_rq SF_COMPLETED r s2 then (Inr True, s2)
        else (Inr True,
              ssh_rtl_complete_with_status r (- ECANCELED) (set_bit_rq SF_COMPLETED r s2)))"
proof -
  from c have "state (requests s r) \<noteq> state (requests s r) \<inter> SSH_REQUEST_FLAGS_TY_MASK"
    by (auto simp: test_bit_rq_def SSH_REQUEST_FLAGS_TY_MASK_def)
  moreover from c have "state (requests s r) \<noteq> {}" by (auto simp: test_bit_rq_def)
  ultimately show ?thesis
    by (simp add: ssh_rtl_cancel_nonpending_def Let_def)
qed

lemma inv_lists_unqueue:
  assumes "inv_lists s" "test_bit_rq SF_QUEUED r s"
  shows "inv_lists (list_del r (clear_bit_rq SF_QUEUED r s))"
  using assms unfolding inv_lists_def by (auto simp: distinct_removeAll)

lemma inv_lists_cancel_nonpending:
  assumes i: "inv_lists s" and c: "test_bit_rq SF_CANCELED r s"
  shows "inv_lists (snd (ssh_rtl_cancel_nonpending r s))"
proof -
  have "inv_lists (list_del r (set_bit_rq SF_LOCKED r (clear_bit_rq SF_QUEUED r s)))"
    if "test_bit_rq SF_QUEUED r s"
  proof -
    have "list_del r (set_bit_rq SF_LOCKED r (clear_bit_rq SF_QUEUED r s))
        = set_bit_rq SF_LOCKED r (list_del r (clear_bit_rq SF_QUEUED r s))"
      by (simp add: rq_defs)
    then show ?thesis using inv_lists_unqueue [OF i that] by simp
  qed
  then show ?thesis using i
    by (simp add: cancel_nonpending_canceled [OF c] Let_def)
qed

lemma inv_lists_ptl_cancel:
  "inv_lists s \<Longrightarrow> inv_lists (snd (ssh_ptl_cancel cb now r s))"
  by (cases cb) (simp_all add: ssh_ptl_cancel_def inv_lists_packet_callback)

lemma inv_lists_cancel_pending:
  assumes i: "inv_lists s"
  shows "inv_lists (snd (ssh_rtl_cancel_pending cb now r s))"
proof -
  let ?s1 = "set_bit_rq SF_LOCKED r s"
  let ?s2 = "snd (ssh_ptl_cancel cb now r ?s1)"
  have i1: "inv_lists ?s1" using i by simp
  have i2: "inv_lists ?s2" by (rule inv_lists_ptl_cancel [OF i1])
  have i3: "inv_lists (ssh_rtl_complete_with_status r (- ECANCELED)
                       (ssh_rtl_pending_remove r
                          (ssh_rtl_queue_remove r (set_bit_rq SF_COMPLETED r ?s2))))"
    using i2 by (simp add: inv_lists_pending_remove inv_lists_queue_remove)
  show ?thesis using i i1 i2 i3
    by (simp add: ssh_rtl_cancel_pending_def Let_def case_prod_unfold split: sum.splits)
qed

lemma inv_lists_cancel:
  assumes i: "inv_lists s"
  shows "inv_lists (snd (ssh_rtl_cancel cb now r pend s))"
proof -
  let ?s1 = "set_bit_rq SF_CANCELED r s"
  have i1: "inv_lists ?s1" using i by simp
  have c1: "test_bit_rq SF_CANCELED r ?s1" by simp
  show ?thesis
    using i inv_lists_cancel_pending [OF i1, of cb now r]
      inv_lists_cancel_nonpending [OF i1 c1]
    by (simp add: ssh_rtl_cancel_def Let_def case_prod_unfold split: sum.splits)
qed

lemma inv_lists_claim_queue:
  "inv_lists s \<Longrightarrow> \<forall>r\<in>set rs. \<not> test_bit_rq SF_PENDING r s \<Longrightarrow>
     inv_lists (snd (shutdown_claim_queue rs cl s))"
proof (induction rs arbitrary: cl s)
  case Nil
  then show ?case by simp
next
  case (Cons x rs)
  let ?s1 = "list_del x (clear_bit_rq SF_QUEUED x (set_bit_rq SF_LOCKED x s))"
  have i1: "inv_lists ?s1"
    using Cons.prems unfolding inv_lists_def by (auto simp: distinct_removeAll)
  have "\<forall>r\<in>set rs. \<not> test_bit_rq SF_PENDING r ?s1" using Cons.prems by simp
  with Cons.IH [OF i1] show ?case by simp
qed

lemma claim_queue_fields:
  "queue (snd (shutdown_claim_queue rs cl s)) = filter (\<lambda>x. x \<notin> set rs) (queue s)"
  "pending_count (snd (shutdown_claim_queue rs cl s)) = pending_count s"
  by (induction rs arbitrary: cl s) (auto simp: removeAll_filter_not_eq intro!: filter_cong)

lemma inv_lists_claim_pending:
  "inv_lists s \<Longrightarrow> \<forall>r\<in>set rs. \<not> test_bit_rq SF_QUEUED r s \<Longrightarrow>
     inv_lists (snd (shutdown_claim_pending rs cl s))"
proof (induction rs arbitrary: cl s)
  case Nil
  then show ?case by simp
next
  case (Cons x rs)
  let ?s1 = "list_del x (clear_bit_rq SF_PENDING x (set_bit_rq SF_LOCKED x s))"
  have "length (removeAll x (pending s)) \<le> length (pending s)"
    by (simp add: length_removeAll_less_eq)
  then have le: "int (length (removeAll x (pending s))) \<le> c"
    if "int (length (pending s)) \<le> c" for c
    using that by linarith
  have i1: "inv_lists ?s1"
    using Cons.prems le unfolding inv_lists_def by (auto simp: distinct_removeAll)
  have "\<forall>r\<in>set rs. \<not> test_bit_rq SF_QUEUED r ?s1" using Cons.prems by simp
  with Cons.IH [OF i1] show ?case by simp
qed

lemma inv_lists_shutdown_complete: "inv_lists s \<Longrightarrow> inv_lists (shutdown_complete cl s)"
  by (induction cl arbitrary: s) simp_all

lemma inv_lists_ptl_shutdown:
  "inv_lists s \<Longrightarrow> inv_lists (snd (ssh_ptl_shutdown cbs now s))"
proof (induction cbs arbitrary: s)
  case Nil
  then show ?case by simp
next
  case (Cons c cbs)
  obtain r st where c: "c = (r, st)" by (cases c)
  have "inv_lists (snd (ssh_rtl_packet_callback r st now s))"
    by (rule inv_lists_packet_callback [OF Cons.prems])
  with Cons.IH show ?case by (simp add: c case_prod_unfold split: sum.splits)
qed

lemma inv_lists_shutdown:
  assumes i: "inv_lists s"
  shows "inv_lists (snd (ssh_rtl_shutdown cbs now s))"
proof -
  let ?s1 = "s\<lparr>shutdown := True\<rparr>"
  have i1: "inv_lists ?s1" by (rule inv_lists_frame [OF i]) simp_all
  have np: "\<forall>r\<in>set (queue ?s1). \<not> test_bit_rq SF_PENDING r ?s1"
    using i by (auto simp: inv_lists_def)
  let ?c2 = "shutdown_claim_queue (queue ?s1) [] ?s1"
  have i2: "inv_lists (snd ?c2)" by (rule inv_lists_claim_queue [OF i1 np])
  have i2': "inv_lists ((snd ?c2)\<lparr>tx_work := False\<rparr>)"
    by (rule inv_lists_frame [OF i2]) simp_all
  let ?p3 = "ssh_ptl_shutdown cbs now ((snd ?c2)\<lparr>tx_work := False\<rparr>)"
  have i3: "inv_lists (snd ?p3)" by (rule inv_lists_ptl_shutdown [OF i2'])
  let ?s4 = "(snd ?p3)\<lparr>rtx_reaper := None\<rparr>"
  have i4: "inv_lists ?s4" by (rule inv_lists_frame [OF i3]) simp_all
  have nq: "\<forall>r\<in>set (pending ?s4). \<not> test_bit_rq SF_QUEUED r ?s4"
    using i4 by (auto simp: inv_lists_def)
  have i5: "inv_lists (snd (shutdown_claim_pending (pending ?s4) (fst ?c2) ?s4))"
    by (rule inv_lists_claim_pending [OF i4 nq])
  show ?thesis using i3 i4 i5
    by (simp add: ssh_rtl_shutdown_def Let_def case_prod_unfold inv_lists_shutdown_complete
        split: sum.splits)
qed

lemma inv_lists_step: "inv_lists s \<Longrightarrow> inv_lists (snd (step e s))"
  by (cases e)
     (simp_all add: inv_lists_submit inv_lists_tx_work_fn inv_lists_packet_callback
       inv_lists_complete_rx inv_lists_reap inv_lists_cancel inv_lists_shutdown
       case_prod_unfold split: sum.splits)

lemma inv_lists_run: "inv_lists s \<Longrightarrow> inv_lists (run es s)"
  by (induction es arbitrary: s) (simp_all add: inv_lists_step)

lemma fresh_inv_lists: "fresh s \<Longrightarrow> inv_lists s"
  unfolding fresh_def inv_lists_def SSH_RTL_MAX_PENDING_def SSH_REQUEST_FLAGS_TY_MASK_def
    test_bit_rq_def
  by auto

text \<open>
  Claim C2. Start from a freshly initialised layer and let the entry points run in any
  order, with any answers and callbacks of the packet layer. At all times the pending
  counter is at most \<^verbatim>\<open>SSH_RTL_MAX_PENDING\<close> = 3 and the pending list holds at most 3
  requests, never more than the counter says. The transmitter is the only path that adds
  to the pending set; it does so only after \<^verbatim>\<open>ssh_rtl_tx_can_process\<close> has seen the
  counter below 3 (\<open>inv_lists_try_process_one\<close>), and every other path only removes.
\<close>

theorem pending_bound:
  assumes "fresh s"
  shows "pending_count (run es s) \<le> 3 \<and> length (pending (run es s)) \<le> 3
       \<and> int (length (pending (run es s))) \<le> pending_count (run es s)"
  using inv_lists_run [OF fresh_inv_lists [OF assms], of es]
  unfolding inv_lists_def SSH_RTL_MAX_PENDING_def by linarith

theorem pending_bound_witness:
  "fresh rtl_boot
   \<and> pending_count (run [Submit 0, TxWork (\<lambda>i. 0), Submit 2] rtl_boot) \<le> 3
   \<and> length (pending (run [Submit 0, TxWork (\<lambda>i. 0), Submit 2] rtl_boot)) \<le> 3"
proof -
  have f: "fresh rtl_boot"
    unfolding fresh_def by (auto simp: boot_defs upd_rq_def SSH_REQUEST_FLAGS_TY_MASK_def)
  show ?thesis using pending_bound [OF f, of "[Submit 0, TxWork (\<lambda>i. 0), Submit 2]"] f
    by simp
qed

subsection \<open>Completion bookkeeping\<close>

lemma ok_rq_cong: "requests s' r = requests s r \<Longrightarrow> ok_rq r s' = ok_rq r s"
  by (simp add: ok_rq_def refused_def ncompl_def test_bit_rq_def)

lemma settled_cong: "requests s' r = requests s r \<Longrightarrow> settled r s' = settled r s"
  by (simp add: settled_def ncompl_def test_bit_rq_def)

lemma refused_cong: "requests s' r = requests s r \<Longrightarrow> refused r s' = refused r s"
  by (simp add: refused_def ncompl_def test_bit_rq_def)

lemma inv_listsD:
  assumes "inv_lists s"
  shows "test_bit_rq SF_QUEUED r s \<Longrightarrow> \<not> test_bit_rq SF_PENDING r s"
    and "test_bit_rq SF_QUEUED r s \<Longrightarrow> ptl (requests s r)"
    and "test_bit_rq SF_PENDING r s \<Longrightarrow> ptl (requests s r)"
    and "r \<in> set (pending s) \<longleftrightarrow> test_bit_rq SF_PENDING r s"
    and "r \<in> set (queue s) \<longleftrightarrow> test_bit_rq SF_QUEUED r s"
  using assms unfolding inv_lists_def by blast+

lemma timeout_start_frame [simp]:
  "ncompl x (snd (ssh_rtl_timeout_start r now s)) = ncompl x s"
  "ptl (requests (snd (ssh_rtl_timeout_start r now s)) x) = ptl (requests s x)"
  "ptl_accepted (requests (snd (ssh_rtl_timeout_start r now s)) x) = ptl_accepted (requests s x)"
  by (simp_all add: ssh_rtl_timeout_start_def ncompl_def Let_def rq_defs)

lemma upd_ptl_frame [simp]:
  "ncompl x (upd_rq r (\<lambda>q. q\<lparr>ptl := v\<rparr>) s) = ncompl x s"
  "ptl (requests (upd_rq r (\<lambda>q. q\<lparr>ptl := v\<rparr>) s) x) = (if x = r then v else ptl (requests s x))"
  "ptl_accepted (requests (upd_rq r (\<lambda>q. q\<lparr>ptl := v\<rparr>) s) x) = ptl_accepted (requests s x)"
  by (simp_all add: ncompl_def)

lemma upd_accepted_frame [simp]:
  "ncompl x (upd_rq r (\<lambda>q. q\<lparr>ptl_accepted := v\<rparr>) s) = ncompl x s"
  "ptl (requests (upd_rq r (\<lambda>q. q\<lparr>ptl_accepted := v\<rparr>) s) x) = ptl (requests s x)"
  "ptl_accepted (requests (upd_rq r (\<lambda>q. q\<lparr>ptl_accepted := v\<rparr>) s) x)
     = (if x = r then v else ptl_accepted (requests s x))"
  "test_bit_rq b x (upd_rq r (\<lambda>q. q\<lparr>ptl_accepted := v\<rparr>) s) = test_bit_rq b x s"
  by (simp_all add: ncompl_def test_bit_rq_def)

lemma upd_timestamp_frame [simp]:
  "ncompl x (upd_rq r (\<lambda>q. q\<lparr>timestamp := v\<rparr>) s) = ncompl x s"
  "ptl (requests (upd_rq r (\<lambda>q. q\<lparr>timestamp := v\<rparr>) s) x) = ptl (requests s x)"
  "ptl_accepted (requests (upd_rq r (\<lambda>q. q\<lparr>timestamp := v\<rparr>) s) x) = ptl_accepted (requests s x)"
  by (simp_all add: ncompl_def)

lemma ncompl_fields [simp]:
  "ncompl x (s\<lparr>queue := qv\<rparr>) = ncompl x s"
  "ncompl x (s\<lparr>pending := pv\<rparr>) = ncompl x s"
  "ncompl x (s\<lparr>pending_count := cv\<rparr>) = ncompl x s"
  "ncompl x (s\<lparr>tx_work := tv\<rparr>) = ncompl x s"
  "ncompl x (s\<lparr>rtx_expires := ev\<rparr>) = ncompl x s"
  "ncompl x (s\<lparr>rtx_reaper := rv\<rparr>) = ncompl x s"
  "ncompl x (s\<lparr>shutdown := sv\<rparr>) = ncompl x s"
  by (simp_all add: ncompl_def)

lemma submit_state:
  "snd (ssh_rtl_submit r s) =
     (if test_bit_rq TY_HAS_RESPONSE r s \<and> \<not> sequenced (requests s r) \<or> ptl (requests s r)
      then s
      else if shutdown s \<or> test_bit_rq SF_LOCKED r s
      then upd_rq r (\<lambda>q. q\<lparr>ptl := True\<rparr>) s
      else snd (ssh_rtl_tx_schedule
             ((set_bit_rq SF_QUEUED r (upd_rq r (\<lambda>q. q\<lparr>ptl := True\<rparr>) s))
                \<lparr>queue := queue s @ [r]\<rparr>)))"
  by (simp add: ssh_rtl_submit_def Let_def)

lemma submit_other:
  "x \<noteq> r \<Longrightarrow> requests (snd (ssh_rtl_submit r s)) x = requests s x"
  by (simp add: submit_state) (simp add: rq_defs)

lemma ok_rq_submit:
  assumes o: "ok_rq r s"
  shows "ok_rq r (snd (ssh_rtl_submit r s))"
proof -
  have a: "ok_rq r (upd_rq r (\<lambda>q. q\<lparr>ptl := True\<rparr>) s)"
    using o by (simp add: ok_rq_def refused_def)
  have b: "ok_rq r (snd (ssh_rtl_tx_schedule
             ((set_bit_rq SF_QUEUED r (upd_rq r (\<lambda>q. q\<lparr>ptl := True\<rparr>) s))
                \<lparr>queue := queue s @ [r]\<rparr>)))"
    if "\<not> ptl (requests s r)" "\<not> test_bit_rq SF_LOCKED r s"
    using o that by (simp add: ok_rq_def refused_def) blast
  show ?thesis using o a b by (simp add: submit_state)
qed

lemma inv_compl_submit:
  assumes "inv_compl s"
  shows "inv_compl (snd (ssh_rtl_submit r s))"
  unfolding inv_compl_def
proof
  fix x
  from assms have o: "ok_rq x s" by (simp add: inv_compl_def)
  show "ok_rq x (snd (ssh_rtl_submit r s))"
    using o ok_rq_submit [of r s] ok_rq_cong [OF submit_other, of x r s]
    by (cases "x = r") simp_all
qed

lemma settled_submit:
  "settled x s \<Longrightarrow> settled x (snd (ssh_rtl_submit r s))"
  by (auto simp: submit_state settled_def)

lemma settled_submit_new:
  "fst (ssh_rtl_submit r s) = 0 \<Longrightarrow> settled r (snd (ssh_rtl_submit r s))"
  by (auto simp: submit_state settled_def ssh_rtl_submit_def Let_def split: if_splits)

lemma packet_callback_state:
  "snd (ssh_rtl_packet_callback r st now s) =
     (if st \<noteq> 0 then
        (if test_bit_rq SF_COMPLETED r s then set_bit_rq SF_LOCKED r s
         else if \<not> ptl (requests s r)
         then set_bit_rq SF_COMPLETED r (set_bit_rq SF_LOCKED r s)
         else snd (ssh_rtl_tx_schedule (ssh_rtl_complete_with_status r st
                (ssh_rtl_pending_remove r (ssh_rtl_queue_remove r
                   (set_bit_rq SF_COMPLETED r (set_bit_rq SF_LOCKED r s)))))))
      else if test_bit_rq TY_HAS_RESPONSE r s
      then snd (ssh_rtl_timeout_start r now
                  (clear_bit_rq SF_TRANSMITTING r (set_bit_rq SF_TRANSMITTED r s)))
      else if test_bit_rq SF_COMPLETED r s
      then set_bit_rq SF_LOCKED r
             (clear_bit_rq SF_TRANSMITTING r (set_bit_rq SF_TRANSMITTED r s))
      else if \<not> ptl (requests s r)
      then set_bit_rq SF_COMPLETED r (set_bit_rq SF_LOCKED r
             (clear_bit_rq SF_TRANSMITTING r (set_bit_rq SF_TRANSMITTED r s)))
      else snd (ssh_rtl_tx_schedule (ssh_rtl_complete_with_status r 0
             (ssh_rtl_pending_remove r
                (set_bit_rq SF_COMPLETED r (set_bit_rq SF_LOCKED r
                   (clear_bit_rq SF_TRANSMITTING r (set_bit_rq SF_TRANSMITTED r s))))))))"
  by (simp add: ssh_rtl_packet_callback_def Let_def ssh_request_rtl_def)

lemma packet_callback_other:
  "x \<noteq> r \<Longrightarrow> requests (snd (ssh_rtl_packet_callback r st now s)) x = requests s x"
  by (simp add: packet_callback_state) (simp add: ssh_rtl_timeout_start_def Let_def rq_defs)

lemma ok_rq_packet_callback:
  assumes "ok_rq r s" "ptl (requests s r)" "\<not> refused r s"
    "st = 0 \<longrightarrow> \<not> test_bit_rq SF_QUEUED r s"
  shows "ok_rq r (snd (ssh_rtl_packet_callback r st now s))"
  using assms by (simp add: packet_callback_state ok_rq_def refused_def) blast

lemma settled_packet_callback:
  assumes "ok_rq r s" "ptl (requests s r)" "\<not> refused r s"
    "st = 0 \<longrightarrow> \<not> test_bit_rq SF_QUEUED r s" "settled r s"
  shows "settled r (snd (ssh_rtl_packet_callback r st now s))"
  using assms by (simp add: packet_callback_state ok_rq_def refused_def settled_def) blast

lemma not_refused_packet_callback:
  assumes "ok_rq r s" "ptl (requests s r)" "\<not> refused r s"
  shows "\<not> refused r (snd (ssh_rtl_packet_callback r st now s))"
  using assms by (simp add: packet_callback_state ok_rq_def refused_def)

lemma packet_callback_fault_free:
  "ptl (requests s r) \<Longrightarrow> fst (ssh_rtl_packet_callback r st now s) \<noteq> Inl NullDeref"
  by (simp add: ssh_rtl_packet_callback_def Let_def ssh_request_rtl_def ssh_rtl_timeout_start_def
      ssh_rtl_timeout_reaper_mod_def split: option.splits)

text \<open>The transmitter.\<close>

lemma pending_push_state:
  "\<not> test_bit_rq SF_LOCKED r s \<Longrightarrow> \<not> test_bit_rq SF_PENDING r s \<Longrightarrow>
     ssh_rtl_tx_pending_push r s =
       (0, (atomic_inc_pending (set_bit_rq SF_PENDING r s))\<lparr>pending := pending s @ [r]\<rparr>)"
  by (simp add: ssh_rtl_tx_pending_push_def)

lemma try_process_one_cases:
  assumes i: "inv_lists s"
  shows "snd (ssh_rtl_tx_try_process_one sub s) = s
       \<or> (\<exists>p. test_bit_rq SF_QUEUED p s \<and> \<not> test_bit_rq SF_LOCKED p s
              \<and> snd (ssh_rtl_tx_try_process_one sub s) = tx_sent sub p s)"
proof (cases "ssh_rtl_tx_next s")
  case (Pair a s1)
  show ?thesis
  proof (cases a)
    case (Inl e)
    with Pair have "s1 = s" by (auto simp: ssh_rtl_tx_next_def dest: tx_next_scan_Inl)
    with Pair Inl show ?thesis by (simp add: ssh_rtl_tx_try_process_one_def)
  next
    case (Inr p)
    with Pair have n: "p \<in> set (queue s)" "\<not> test_bit_rq SF_LOCKED p s"
      "s1 = list_del p (clear_bit_rq SF_QUEUED p (set_bit_rq SF_TRANSMITTING p s))"
      by (auto simp: ssh_rtl_tx_next_def dest: tx_next_scan_Inr)
    from n(1) i have q: "test_bit_rq SF_QUEUED p s" by (simp add: inv_listsD)
    with i have np: "\<not> test_bit_rq SF_PENDING p s" by (simp add: inv_listsD)
    have l1: "\<not> test_bit_rq SF_LOCKED p s1" "\<not> test_bit_rq SF_PENDING p s1"
      using n(2,3) np by simp_all
    have "snd (ssh_rtl_tx_try_process_one sub s) = tx_sent sub p s"
      using Pair Inr pending_push_state [OF l1] n(3)
      by (simp add: ssh_rtl_tx_try_process_one_def tx_sent_def Let_def)
    with q n(2) show ?thesis by blast
  qed
qed

lemma tx_sent_other: "x \<noteq> p \<Longrightarrow> requests (tx_sent sub p s) x = requests s x"
  by (simp add: tx_sent_def Let_def) (simp add: rq_defs)

lemma ok_rq_tx_sent:
  assumes "ok_rq p s" "test_bit_rq SF_QUEUED p s" "\<not> test_bit_rq SF_LOCKED p s"
    "ptl (requests s p)"
  shows "ok_rq p (tx_sent sub p s)" "settled p (tx_sent sub p s)"
  using assms by (simp_all add: tx_sent_def Let_def ok_rq_def refused_def settled_def)

lemma inv_compl_try_process_one:
  assumes i: "inv_lists s" and c: "inv_compl s"
  shows "inv_compl (snd (ssh_rtl_tx_try_process_one sub s))"
    and "settled x s \<Longrightarrow> settled x (snd (ssh_rtl_tx_try_process_one sub s))"
proof -
  let ?s' = "snd (ssh_rtl_tx_try_process_one sub s)"
  from try_process_one_cases [OF i, of sub] consider
    (same) "?s' = s"
  | (sent) p where "test_bit_rq SF_QUEUED p s" "\<not> test_bit_rq SF_LOCKED p s"
      "?s' = tx_sent sub p s" by blast
  then have "inv_compl ?s' \<and> (settled x s \<longrightarrow> settled x ?s')"
  proof cases
    case same
    with c show ?thesis by simp
  next
    case sent
    have b: "ptl (requests s p)" using i sent(1) by (simp add: inv_listsD)
    have o: "ok_rq p s" using c by (simp add: inv_compl_def)
    have "ok_rq y (tx_sent sub p s)" for y
      using ok_rq_tx_sent(1) [OF o sent(1,2) b, of sub] c
        ok_rq_cong [OF tx_sent_other, of y p sub s]
      by (cases "y = p") (simp_all add: inv_compl_def)
    moreover have "settled x (tx_sent sub p s)" if "settled x s"
      using ok_rq_tx_sent(2) [OF o sent(1,2) b, of sub] that
        settled_cong [OF tx_sent_other, of x p sub s]
      by (cases "x = p") simp_all
    ultimately show ?thesis using sent(3) by (simp add: inv_compl_def)
  qed
  then show "inv_compl ?s'" and "settled x s \<Longrightarrow> settled x ?s'" by simp_all
qed

lemma inv_compl_tx_work_loop:
  "inv_lists s \<Longrightarrow> inv_compl s \<Longrightarrow>
     inv_compl (snd (tx_work_loop n i sub s))
     \<and> (settled x s \<longrightarrow> settled x (snd (tx_work_loop n i sub s)))"
proof (induction n arbitrary: i s)
  case 0
  then show ?case by simp
next
  case (Suc n)
  let ?s1 = "snd (ssh_rtl_tx_try_process_one (sub i) s)"
  have i1: "inv_lists ?s1" by (rule inv_lists_try_process_one [OF Suc.prems(1)])
  have c1: "inv_compl ?s1" by (rule inv_compl_try_process_one(1) [OF Suc.prems])
  have t1: "settled x s \<Longrightarrow> settled x ?s1"
    by (rule inv_compl_try_process_one(2) [OF Suc.prems])
  show ?case using Suc.IH [OF i1 c1, of "Suc i"] c1 t1
    by (simp add: case_prod_unfold)
qed

lemma settled_fields [simp]:
  "settled x (s\<lparr>tx_work := tv\<rparr>) = settled x s"
  "settled x (s\<lparr>rtx_reaper := rv\<rparr>) = settled x s"
  "settled x (s\<lparr>rtx_expires := ev\<rparr>) = settled x s"
  "settled x (s\<lparr>shutdown := sv\<rparr>) = settled x s"
  "settled x (snd (ssh_rtl_tx_schedule s)) = settled x s"
  by (simp_all add: settled_def)

lemma inv_compl_fields [simp]:
  "inv_compl (s\<lparr>tx_work := tv\<rparr>) = inv_compl s"
  "inv_compl (s\<lparr>rtx_reaper := rv\<rparr>) = inv_compl s"
  "inv_compl (s\<lparr>rtx_expires := ev\<rparr>) = inv_compl s"
  "inv_compl (s\<lparr>shutdown := sv\<rparr>) = inv_compl s"
  "inv_compl (snd (ssh_rtl_tx_schedule s)) = inv_compl s"
  by (simp_all add: inv_compl_def ok_rq_def refused_def)

lemma inv_lists_fields [simp]:
  "inv_lists (s\<lparr>tx_work := tv\<rparr>) = inv_lists s"
  "inv_lists (s\<lparr>rtx_reaper := rv\<rparr>) = inv_lists s"
  "inv_lists (s\<lparr>rtx_expires := ev\<rparr>) = inv_lists s"
  "inv_lists (s\<lparr>shutdown := sv\<rparr>) = inv_lists s"
  by (simp_all add: inv_lists_def)

lemma inv_compl_tx_work_fn:
  assumes "inv_lists s" "inv_compl s"
  shows "inv_compl (ssh_rtl_tx_work_fn sub (s\<lparr>tx_work := False\<rparr>))"
    and "settled x s \<Longrightarrow> settled x (ssh_rtl_tx_work_fn sub (s\<lparr>tx_work := False\<rparr>))"
  using inv_compl_tx_work_loop [of "s\<lparr>tx_work := False\<rparr>" 10 0 sub x] assms
  by (simp_all add: ssh_rtl_tx_work_fn_def case_prod_unfold split: bool.splits)

text \<open>Completion by a response.\<close>

lemma complete_cases:
  "snd (ssh_rtl_complete c d s) = s
   \<or> (\<exists>p. p \<in> set (pending s) \<and> snd (ssh_rtl_complete c d s) = rx_done c d p s)"
proof (cases "complete_scan (cmd_rqid c) (pending s) s")
  case (Pair a s')
  show ?thesis
  proof (cases "\<exists>p. a = Inr (Match p)")
    case True
    then obtain p where a: "a = Inr (Match p)" by blast
    from complete_scan_Match [OF Pair [unfolded a]] have
      "p \<in> set (pending s)" "snd (ssh_rtl_complete c d s) = rx_done c d p s"
      using Pair a by (simp_all add: ssh_rtl_complete_def rx_done_def Let_def)
    then show ?thesis by blast
  next
    case False
    with complete_scan_same [OF Pair] have "s' = s" by blast
    with Pair False show ?thesis
      by (auto simp: ssh_rtl_complete_def split: sum.splits scan.splits)
  qed
qed

lemma rx_done_other: "x \<noteq> p \<Longrightarrow> requests (rx_done c d p s) x = requests s x"
  by (simp add: rx_done_def Let_def) (simp add: rq_defs)

lemma ok_rq_rx_matched:
  assumes "ok_rq p s" "test_bit_rq SF_PENDING p s" "\<not> test_bit_rq SF_QUEUED p s"
  shows "ok_rq p (rx_done c d p s)" "settled p (rx_done c d p s)"
  using assms by (auto simp: rx_done_def Let_def ok_rq_def refused_def settled_def)

lemma inv_compl_complete_rx:
  assumes i: "inv_lists s" and c: "inv_compl s"
  shows "inv_compl (snd (ssh_rtl_complete cm d s))"
    and "settled x s \<Longrightarrow> settled x (snd (ssh_rtl_complete cm d s))"
proof -
  let ?s' = "snd (ssh_rtl_complete cm d s)"
  from complete_cases [of cm d s] consider
    (same) "?s' = s" | (matched) p where "p \<in> set (pending s)" "?s' = rx_done cm d p s"
    by blast
  then have "inv_compl ?s' \<and> (settled x s \<longrightarrow> settled x ?s')"
  proof cases
    case same
    with c show ?thesis by simp
  next
    case matched
    have pb: "test_bit_rq SF_PENDING p s" using i matched(1) by (simp add: inv_listsD)
    then have nq: "\<not> test_bit_rq SF_QUEUED p s" using i inv_listsD(1) by blast
    have o: "ok_rq p s" using c by (simp add: inv_compl_def)
    have "ok_rq y (rx_done cm d p s)" for y
      using ok_rq_rx_matched(1) [OF o pb nq, of cm d] c
        ok_rq_cong [OF rx_done_other, of y p cm d s]
      by (cases "y = p") (simp_all add: inv_compl_def)
    moreover have "settled x (rx_done cm d p s)" if "settled x s"
      using ok_rq_rx_matched(2) [OF o pb nq, of cm d] that
        settled_cong [OF rx_done_other, of x p cm d s]
      by (cases "x = p") simp_all
    ultimately show ?thesis using matched(2) by (simp add: inv_compl_def)
  qed
  then show "inv_compl ?s'" and "settled x s \<Longrightarrow> settled x ?s'" by simp_all
qed

text \<open>Cancellation.\<close>

lemma ptl_cancel_state:
  "ptl (requests s r) \<Longrightarrow> test_bit_rq SF_LOCKED r s \<Longrightarrow>
     ssh_ptl_cancel cb now r s =
       (Inr (), case cb of None \<Rightarrow> s | Some st \<Rightarrow> snd (ssh_rtl_packet_callback r st now s))"
  using packet_callback_no_fault [of r s _ now]
  by (cases cb) (simp_all add: ssh_ptl_cancel_def ssh_request_rtl_def prod_eq_iff)

lemma cancel_pending_state:
  "snd (ssh_rtl_cancel_pending cb now r s) =
     (if test_bit_rq SF_LOCKED r s then s
      else if \<not> ptl (requests s r)
      then (if test_bit_rq SF_COMPLETED r s then set_bit_rq SF_LOCKED r s
            else ssh_rtl_complete_with_status r (- ECANCELED)
                   (set_bit_rq SF_COMPLETED r (set_bit_rq SF_LOCKED r s)))
      else cancel_pending_end r
             (case cb of None \<Rightarrow> set_bit_rq SF_LOCKED r s
              | Some st \<Rightarrow> snd (ssh_rtl_packet_callback r st now (set_bit_rq SF_LOCKED r s))))"
proof (cases "\<not> test_bit_rq SF_LOCKED r s \<and> ptl (requests s r)")
  case True
  then have "ssh_ptl_cancel cb now r (set_bit_rq SF_LOCKED r s) =
       (Inr (), case cb of None \<Rightarrow> set_bit_rq SF_LOCKED r s
              | Some st \<Rightarrow> snd (ssh_rtl_packet_callback r st now (set_bit_rq SF_LOCKED r s)))"
    by (intro ptl_cancel_state) simp_all
  with True show ?thesis
    by (simp add: ssh_rtl_cancel_pending_def Let_def ssh_request_rtl_def cancel_pending_end_def)
next
  case False
  then show ?thesis
    by (auto simp: ssh_rtl_cancel_pending_def Let_def ssh_request_rtl_def)
qed

lemma prim_other:
  "x \<noteq> r \<Longrightarrow> requests (set_bit_rq b r s) x = requests s x"
  "x \<noteq> r \<Longrightarrow> requests (clear_bit_rq b r s) x = requests s x"
  "x \<noteq> r \<Longrightarrow> requests (ssh_rtl_complete_with_status r st s) x = requests s x"
  "x \<noteq> r \<Longrightarrow> requests (ssh_rtl_queue_remove r s) x = requests s x"
  "x \<noteq> r \<Longrightarrow> requests (ssh_rtl_pending_remove r s) x = requests s x"
  "requests (list_del r s) x = requests s x"
  by (simp_all add: rq_defs)

lemma cancel_pending_end_other:
  "x \<noteq> r \<Longrightarrow> requests (cancel_pending_end r s) x = requests s x"
  by (simp add: cancel_pending_end_def prim_other)

lemma cancel_pending_other:
  "x \<noteq> r \<Longrightarrow> requests (snd (ssh_rtl_cancel_pending cb now r s)) x = requests s x"
  by (cases cb)
     (simp_all add: cancel_pending_state cancel_pending_end_other packet_callback_other
        prim_other)

lemma ok_rq_cancel_pending_end:
  assumes "ok_rq r s" "\<not> refused r s" "test_bit_rq SF_LOCKED r s"
  shows "ok_rq r (cancel_pending_end r s)"
    and "settled r s \<Longrightarrow> settled r (cancel_pending_end r s)"
  using assms by (auto simp: cancel_pending_end_def ok_rq_def refused_def settled_def)

lemma ok_rq_cancel_pending:
  assumes i: "inv_lists s" and o: "ok_rq r s"
    and e: "case cb of None \<Rightarrow> True | Some st \<Rightarrow> st \<noteq> 0 \<or> ptl_accepted (requests s r)"
  shows "ok_rq r (snd (ssh_rtl_cancel_pending cb now r s))"
    and "settled r s \<Longrightarrow> settled r (snd (ssh_rtl_cancel_pending cb now r s))"
proof -
  let ?s1 = "set_bit_rq SF_LOCKED r s"
  let ?s' = "snd (ssh_rtl_cancel_pending cb now r s)"
  have "ok_rq r ?s' \<and> (settled r s \<longrightarrow> settled r ?s')"
  proof (cases "test_bit_rq SF_LOCKED r s")
    case True
    with o show ?thesis by (simp add: cancel_pending_state)
  next
    case nl: False
    with o have w: "ncompl r s = 0" "\<not> test_bit_rq SF_COMPLETED r s"
      by (auto simp: ok_rq_def refused_def)
    show ?thesis
    proof (cases "ptl (requests s r)")
      case False
      with i have "\<not> test_bit_rq SF_QUEUED r s" "\<not> test_bit_rq SF_PENDING r s"
        using inv_listsD(2,3) by blast+
      with o nl w False show ?thesis
        by (simp add: cancel_pending_state ok_rq_def refused_def settled_def)
    next
      case b: True
      have o1: "ok_rq r ?s1" using o w by (simp add: ok_rq_def refused_def)
      have nr1: "\<not> refused r ?s1" using w by (simp add: refused_def)
      have t1: "settled r s \<Longrightarrow> settled r ?s1" by (simp add: settled_def)
      have b1: "ptl (requests ?s1 r)" using b by simp
      let ?s2 = "case cb of None \<Rightarrow> ?s1
              | Some st \<Rightarrow> snd (ssh_rtl_packet_callback r st now ?s1)"
      have "ok_rq r ?s2 \<and> \<not> refused r ?s2 \<and> test_bit_rq SF_LOCKED r ?s2
           \<and> (settled r s \<longrightarrow> settled r ?s2)"
      proof (cases cb)
        case None
        then show ?thesis using o1 nr1 t1 by simp
      next
        case (Some st)
        with e o have q: "st = 0 \<longrightarrow> \<not> test_bit_rq SF_QUEUED r ?s1"
          by (auto simp: ok_rq_def)
        have "test_bit_rq SF_LOCKED r (snd (ssh_rtl_packet_callback r st now ?s1))"
          by (simp add: packet_callback_state)
        then show ?thesis
          using Some ok_rq_packet_callback [OF o1 b1 nr1 q, of now]
            not_refused_packet_callback [OF o1 b1 nr1, of st now]
            settled_packet_callback [OF o1 b1 nr1 q, of now] t1
          by simp
      qed
      then show ?thesis
        using nl b ok_rq_cancel_pending_end [of r ?s2]
        by (simp add: cancel_pending_state)
    qed
  qed
  then show "ok_rq r ?s'" and "settled r s \<Longrightarrow> settled r ?s'" by simp_all
qed

lemma cancel_nonpending_other:
  "test_bit_rq SF_CANCELED r s \<Longrightarrow> x \<noteq> r \<Longrightarrow>
     requests (snd (ssh_rtl_cancel_nonpending r s)) x = requests s x"
  by (simp add: cancel_nonpending_canceled Let_def prim_other)

lemma ok_rq_cancel_nonpending:
  assumes "test_bit_rq SF_CANCELED r s" "ok_rq r s"
    "test_bit_rq SF_QUEUED r s \<longrightarrow> \<not> test_bit_rq SF_PENDING r s"
  shows "ok_rq r (snd (ssh_rtl_cancel_nonpending r s))"
    and "settled r s \<Longrightarrow> settled r (snd (ssh_rtl_cancel_nonpending r s))"
  using assms
  by (auto simp: cancel_nonpending_canceled Let_def ok_rq_def refused_def settled_def)

lemma ok_rq_set_canceled [simp]:
  "ok_rq x (set_bit_rq SF_CANCELED r s) = ok_rq x s"
  "settled x (set_bit_rq SF_CANCELED r s) = settled x s"
  by (simp_all add: ok_rq_def refused_def settled_def)

lemma ok_rq_tx_schedule [simp]:
  "ok_rq x (snd (ssh_rtl_tx_schedule s)) = ok_rq x s"
  by (simp add: ok_rq_def refused_def)

lemma cancel_state:
  "snd (ssh_rtl_cancel cb now r pend s) = s
   \<or> (\<not> test_bit_rq SF_CANCELED r s \<and>
       (let s2 = snd (if pend then ssh_rtl_cancel_pending cb now r (set_bit_rq SF_CANCELED r s)
                      else ssh_rtl_cancel_nonpending r (set_bit_rq SF_CANCELED r s))
        in snd (ssh_rtl_cancel cb now r pend s) = s2
         \<or> snd (ssh_rtl_cancel cb now r pend s) = snd (ssh_rtl_tx_schedule s2)))"
  by (simp add: ssh_rtl_cancel_def Let_def case_prod_unfold split: sum.splits)

lemma inv_compl_cancel:
  assumes i: "inv_lists s" and c: "inv_compl s"
    and e: "case cb of None \<Rightarrow> True | Some st \<Rightarrow> st \<noteq> 0 \<or> ptl_accepted (requests s r)"
  shows "inv_compl (snd (ssh_rtl_cancel cb now r pend s))"
    and "settled x s \<Longrightarrow> settled x (snd (ssh_rtl_cancel cb now r pend s))"
proof -
  let ?s1 = "set_bit_rq SF_CANCELED r s"
  let ?s2 = "snd (if pend then ssh_rtl_cancel_pending cb now r ?s1
                  else ssh_rtl_cancel_nonpending r ?s1)"
  let ?s' = "snd (ssh_rtl_cancel cb now r pend s)"
  have i1: "inv_lists ?s1" using i by simp
  have o1: "ok_rq r ?s1" using c by (simp add: inv_compl_def)
  have c1: "test_bit_rq SF_CANCELED r ?s1" by simp
  have e1: "case cb of None \<Rightarrow> True | Some st \<Rightarrow> st \<noteq> 0 \<or> ptl_accepted (requests ?s1 r)"
    using e by (cases cb) simp_all
  have qp: "test_bit_rq SF_QUEUED r ?s1 \<longrightarrow> \<not> test_bit_rq SF_PENDING r ?s1"
    using inv_listsD(1) [OF i1] by blast
  have other: "requests ?s2 y = requests s y" if "y \<noteq> r" for y
    using that cancel_pending_other [of y r cb now ?s1]
      cancel_nonpending_other [OF c1, of y]
    by (simp add: prim_other)
  have okr: "ok_rq r ?s2"
    using ok_rq_cancel_pending(1) [OF i1 o1 e1, of now] ok_rq_cancel_nonpending(1) [OF c1 o1 qp]
    by simp
  have str: "settled r ?s2" if "settled r s"
    using ok_rq_cancel_pending(2) [OF i1 o1 e1, of now] ok_rq_cancel_nonpending(2) [OF c1 o1 qp]
      that by simp
  have ok2: "ok_rq y ?s2" for y
    using okr c ok_rq_cong [OF other, of y] by (cases "y = r") (simp_all add: inv_compl_def)
  have st2: "settled x ?s2" if "settled x s"
    using str that settled_cong [OF other, of x] by (cases "x = r") simp_all
  from cancel_state [of cb now r pend s]
  have "?s' = s \<or> ?s' = ?s2 \<or> ?s' = snd (ssh_rtl_tx_schedule ?s2)"
    by (auto simp: Let_def)
  then have "inv_compl ?s' \<and> (settled x s \<longrightarrow> settled x ?s')"
    using c ok2 st2 by (auto simp: inv_compl_def)
  then show "inv_compl ?s'" and "settled x s \<Longrightarrow> settled x ?s'" by simp_all
qed

text \<open>The reaper.\<close>

lemma reap_requests:
  assumes d: "distinct (pending s)"
  shows "requests (snd (ssh_rtl_timeout_reap now s)) r =
     (if r \<in> set (pending s) \<and> reap_due now (rtx_timeout s) s r
      then (if test_bit_rq SF_COMPLETED r s
            then (requests s r)\<lparr>state := insert SF_LOCKED (state (requests s r)) - {SF_PENDING}\<rparr>
            else (requests s r)
                   \<lparr>state := insert SF_COMPLETED
                              (insert SF_LOCKED (state (requests s r)) - {SF_PENDING}),
                    completions := completions (requests s r) @ [(None, - ETIMEDOUT)]\<rparr>)
      else requests s r)"
proof -
  let ?t = "rtx_timeout s"
  let ?s0 = "s\<lparr>rtx_expires := KTIME_MAX\<rparr>"
  let ?sc = "reap_scan now ?t (pending s) KTIME_MAX [] ?s0"
  let ?cl = "fst (snd ?sc)" and ?s1 = "snd (snd ?sc)"
  have cl: "?cl = filter (reap_due now ?t s) (pending s)"
    using reap_scan_claimed [OF d, of now ?t KTIME_MAX "[]" ?s0] by simp
  have dcl: "distinct ?cl" using d by (simp add: cl)
  show ?thesis
  proof (cases "r \<in> set (pending s)")
    case False
    then have "requests ?s1 r = requests s r"
      using reap_scan_requests_other [of r "pending s" now ?t KTIME_MAX "[]" ?s0] by simp
    moreover have "r \<notin> set ?cl" using False by (simp add: cl)
    ultimately show ?thesis using False
      by (simp add: reap_state(1) reap_claimed_other)
  next
    case True
    have r1: "requests ?s1 r =
       (if reap_due now ?t s r
        then (requests s r)\<lparr>state := insert SF_LOCKED (state (requests s r)) - {SF_PENDING}\<rparr>
        else requests s r)"
      using reap_scan_requests_in [OF d True, of now ?t KTIME_MAX "[]" ?s0] by simp
    show ?thesis
    proof (cases "reap_due now ?t s r")
      case due: True
      then have "r \<in> set ?cl" using True by (simp add: cl)
      from reap_claimed_in [OF dcl this, of ?s1] r1 due True show ?thesis
        by (simp add: reap_state(1) test_bit_rq_def)
    next
      case False
      then have "r \<notin> set ?cl" by (simp add: cl)
      with r1 False show ?thesis by (simp add: reap_state(1) reap_claimed_other)
    qed
  qed
qed

lemma inv_compl_reap:
  assumes i: "inv_lists s" and c: "inv_compl s"
  shows "inv_compl (snd (ssh_rtl_timeout_reap now (s\<lparr>rtx_reaper := None\<rparr>)))"
    and "settled x s \<Longrightarrow> settled x (snd (ssh_rtl_timeout_reap now (s\<lparr>rtx_reaper := None\<rparr>)))"
proof -
  let ?s0 = "s\<lparr>rtx_reaper := None\<rparr>"
  let ?s' = "snd (ssh_rtl_timeout_reap now ?s0)"
  have d: "distinct (pending ?s0)" using i by (simp add: inv_lists_def)
  have "ok_rq y ?s' \<and> (settled y s \<longrightarrow> settled y ?s')" for y
  proof (cases "y \<in> set (pending ?s0) \<and> reap_due now (rtx_timeout ?s0) ?s0 y")
    case False
    then have "requests ?s' y = requests s y" by (auto simp: reap_requests [OF d])
    then show ?thesis using c ok_rq_cong [of ?s' y s] settled_cong [of ?s' y s]
      by (simp add: inv_compl_def)
  next
    case True
    then have p: "test_bit_rq SF_PENDING y s" using i by (simp add: inv_listsD)
    have nq: "SF_QUEUED \<notin> state (requests s y)"
      using inv_listsD(1) [OF i, of y] p by (auto simp: test_bit_rq_def)
    have o: "ok_rq y s" using c by (simp add: inv_compl_def)
    from o p have w: "ncompl y s = 0" "\<not> test_bit_rq SF_COMPLETED y s"
      by (auto simp: ok_rq_def refused_def)
    have "requests ?s' y = (requests s y)
                   \<lparr>state := insert SF_COMPLETED
                              (insert SF_LOCKED (state (requests s y)) - {SF_PENDING}),
                    completions := completions (requests s y) @ [(None, - ETIMEDOUT)]\<rparr>"
      using True w by (simp add: reap_requests [OF d] test_bit_rq_def)
    then show ?thesis using o w nq
      by (auto simp: ok_rq_def refused_def settled_def ncompl_def test_bit_rq_def)
  qed
  then show "inv_compl ?s'" and "settled x s \<Longrightarrow> settled x ?s'"
    by (simp_all add: inv_compl_def)
qed

text \<open>Shutdown.\<close>

lemma insert_claim_absorb [simp]:
  "insert a (insert a S - B) = insert a S - B" if "a \<notin> B"
  using that by auto

lemma claim_queue_result:
  "fst (shutdown_claim_queue rs cl s) = cl @ rs"
  "requests (snd (shutdown_claim_queue rs cl s)) x =
     (if x \<in> set rs
      then (requests s x)\<lparr>state := insert SF_LOCKED (state (requests s x)) - {SF_QUEUED}\<rparr>
      else requests s x)"
  by (induction rs arbitrary: cl s) (auto simp: rq_defs)

lemma claim_pending_result:
  "fst (shutdown_claim_pending rs cl s) = cl @ rs"
  "requests (snd (shutdown_claim_pending rs cl s)) x =
     (if x \<in> set rs
      then (requests s x)\<lparr>state := insert SF_LOCKED (state (requests s x)) - {SF_PENDING}\<rparr>
      else requests s x)"
  "pending (snd (shutdown_claim_pending rs cl s)) = filter (\<lambda>x. x \<notin> set rs) (pending s)"
  "queue (snd (shutdown_claim_pending rs cl s)) = filter (\<lambda>x. x \<notin> set rs) (queue s)"
  by (induction rs arbitrary: cl s)
     (auto simp: rq_defs removeAll_filter_not_eq intro!: filter_cong)

lemma shutdown_complete_result:
  "requests (shutdown_complete cl s) x =
     (if x \<in> set cl \<and> \<not> test_bit_rq SF_COMPLETED x s
      then (requests s x)\<lparr>state := insert SF_COMPLETED (state (requests s x)),
             completions := completions (requests s x) @ [(None, - ESHUTDOWN)]\<rparr>
      else requests s x)"
  "queue (shutdown_complete cl s) = queue s"
  "pending (shutdown_complete cl s) = pending s"
  by (induction cl arbitrary: s) (auto simp: rq_defs)

lemma packet_callback_bits:
  "test_bit_rq SF_QUEUED x (snd (ssh_rtl_packet_callback r st now s)) \<Longrightarrow> test_bit_rq SF_QUEUED x s"
  "test_bit_rq SF_PENDING x (snd (ssh_rtl_packet_callback r st now s)) \<Longrightarrow> test_bit_rq SF_PENDING x s"
  "test_bit_rq SF_LOCKED x s \<Longrightarrow> test_bit_rq SF_LOCKED x (snd (ssh_rtl_packet_callback r st now s))"
  "ptl_accepted (requests (snd (ssh_rtl_packet_callback r st now s)) x) = ptl_accepted (requests s x)"
  by (simp_all add: packet_callback_state split: if_splits)

lemma packet_callback_accepted:
  assumes c: "inv_compl s" and a: "ptl_accepted (requests s r)"
  shows "inv_compl (snd (ssh_rtl_packet_callback r st now s))"
    and "settled x s \<Longrightarrow> settled x (snd (ssh_rtl_packet_callback r st now s))"
    and "\<not> refused x s \<Longrightarrow> \<not> refused x (snd (ssh_rtl_packet_callback r st now s))"
proof -
  let ?s' = "snd (ssh_rtl_packet_callback r st now s)"
  have o: "ok_rq r s" using c by (simp add: inv_compl_def)
  from o a have f: "ptl (requests s r)" "\<not> test_bit_rq SF_QUEUED r s" "\<not> refused r s"
    by (auto simp: ok_rq_def refused_def)
  have "ok_rq y ?s' \<and> (settled y s \<longrightarrow> settled y ?s') \<and> (\<not> refused y s \<longrightarrow> \<not> refused y ?s')"
    for y
  proof (cases "y = r")
    case True
    then show ?thesis
      using ok_rq_packet_callback [OF o f(1) f(3), where st = st and now = now]
        settled_packet_callback [OF o f(1) f(3), where st = st and now = now]
        not_refused_packet_callback [OF o f(1) f(3), where st = st and now = now] f(2)
      by simp
  next
    case False
    then have "requests ?s' y = requests s y" by (rule packet_callback_other)
    then show ?thesis using c ok_rq_cong [of ?s' y s] settled_cong [of ?s' y s]
        refused_cong [of ?s' y s]
      by (simp add: inv_compl_def)
  qed
  then show "inv_compl ?s'" and "settled x s \<Longrightarrow> settled x ?s'"
    and "\<not> refused x s \<Longrightarrow> \<not> refused x ?s'"
    by (simp_all add: inv_compl_def)
qed

lemma ptl_shutdown_keeps:
  assumes "inv_compl s" "\<forall>c\<in>set cbs. ptl_accepted (requests s (fst c))"
  shows "inv_compl (snd (ssh_ptl_shutdown cbs now s))
    \<and> (settled x s \<longrightarrow> settled x (snd (ssh_ptl_shutdown cbs now s)))
    \<and> (\<not> refused x s \<longrightarrow> \<not> refused x (snd (ssh_ptl_shutdown cbs now s)))
    \<and> (test_bit_rq SF_QUEUED x (snd (ssh_ptl_shutdown cbs now s)) \<longrightarrow> test_bit_rq SF_QUEUED x s)
    \<and> (test_bit_rq SF_PENDING x (snd (ssh_ptl_shutdown cbs now s)) \<longrightarrow> test_bit_rq SF_PENDING x s)
    \<and> (test_bit_rq SF_LOCKED x s \<longrightarrow> test_bit_rq SF_LOCKED x (snd (ssh_ptl_shutdown cbs now s)))"
  using assms
proof (induction cbs arbitrary: s)
  case Nil
  then show ?case by simp
next
  case (Cons c cbs)
  obtain r st where cc: "c = (r, st)" by (cases c)
  let ?s1 = "snd (ssh_rtl_packet_callback r st now s)"
  have a: "ptl_accepted (requests s r)" using Cons.prems(2) by (simp add: cc)
  note k = packet_callback_accepted [OF Cons.prems(1) a, where st = st and now = now]
  have "\<forall>c\<in>set cbs. ptl_accepted (requests ?s1 (fst c))"
    using Cons.prems(2) by (simp add: packet_callback_bits(4))
  note ih = Cons.IH [OF k(1) this]
  note b = packet_callback_bits(1,2,3) [where x = x and r = r and st = st and now = now and s = s]
  show ?case
  proof (cases "fst (ssh_rtl_packet_callback r st now s)")
    case (Inl f)
    then have "snd (ssh_ptl_shutdown (c # cbs) now s) = ?s1"
      by (simp add: cc case_prod_unfold)
    then show ?thesis using k(1) k(2,3) [where x = x] b by auto
  next
    case (Inr u)
    then have "snd (ssh_ptl_shutdown (c # cbs) now s) = snd (ssh_ptl_shutdown cbs now ?s1)"
      by (simp add: cc case_prod_unfold)
    then show ?thesis using ih k(2,3) [where x = x] b by auto
  qed
qed

lemma inv_compl_shutdown:
  assumes i: "inv_lists s" and c: "inv_compl s"
    and a: "\<forall>c\<in>set cbs. ptl_accepted (requests s (fst c))"
    and ret: "fst (ssh_rtl_shutdown cbs now s) = Inr ()"
  shows "inv_compl (snd (ssh_rtl_shutdown cbs now s))"
    and "settled x s \<Longrightarrow> settled x (snd (ssh_rtl_shutdown cbs now s))"
    and "queue (snd (ssh_rtl_shutdown cbs now s)) = []"
    and "pending (snd (ssh_rtl_shutdown cbs now s)) = []"
proof -
  let ?s1 = "s\<lparr>shutdown := True\<rparr>"
  let ?c2 = "shutdown_claim_queue (queue s) [] ?s1"
  let ?s' = "snd (ssh_rtl_shutdown cbs now s)"
  define s2 where "s2 = (snd ?c2)\<lparr>tx_work := False\<rparr>"
  define s3 where "s3 = snd (ssh_ptl_shutdown cbs now s2)"
  define s5 where
    "s5 = snd (shutdown_claim_pending (pending s3) (queue s) (s3\<lparr>rtx_reaper := None\<rparr>))"
  define s6 where "s6 = shutdown_complete (queue s @ pending s3) s5"
  have cl2: "fst ?c2 = queue s" by (simp add: claim_queue_result)
  have r2: "requests s2 y =
     (if y \<in> set (queue s)
      then (requests s y)\<lparr>state := insert SF_LOCKED (state (requests s y)) - {SF_QUEUED}\<rparr>
      else requests s y)" for y
    by (simp add: s2_def claim_queue_result)
  have q2: "queue s2 = []" by (simp add: s2_def claim_queue_fields)
  have np: "\<forall>r\<in>set (queue ?s1). \<not> test_bit_rq SF_PENDING r ?s1"
    using i by (auto simp: inv_lists_def)
  have i2: "inv_lists s2" using inv_lists_claim_queue [OF _ np, of "[]"] i by (simp add: s2_def)
  have o: "ok_rq y s" for y using c by (simp add: inv_compl_def)
  have w: "ncompl y s = 0 \<and> \<not> test_bit_rq SF_COMPLETED y s \<and> \<not> test_bit_rq SF_PENDING y s
      \<and> test_bit_rq SF_QUEUED y s \<and> \<not> ptl_accepted (requests s y)"
    if "y \<in> set (queue s)" for y
    using that o [of y] inv_listsD(1,5) [OF i, of y] by (auto simp: ok_rq_def refused_def)
  have o2: "ok_rq y s2" for y
  proof (cases "y \<in> set (queue s)")
    case True
    with w [OF True] r2 [of y] show ?thesis
      by (auto simp: ok_rq_def refused_def ncompl_def test_bit_rq_def)
  next
    case False
    then show ?thesis using o [of y] ok_rq_cong [of s2 y s] r2 [of y] by simp
  qed
  then have c2: "inv_compl s2" by (simp add: inv_compl_def)
  have a2: "\<forall>c\<in>set cbs. ptl_accepted (requests s2 (fst c))" using a by (simp add: r2)
  have k: "inv_compl s3" "settled y s2 \<Longrightarrow> settled y s3" "\<not> refused y s2 \<Longrightarrow> \<not> refused y s3"
    "test_bit_rq SF_QUEUED y s3 \<Longrightarrow> test_bit_rq SF_QUEUED y s2"
    "test_bit_rq SF_PENDING y s3 \<Longrightarrow> test_bit_rq SF_PENDING y s2"
    "test_bit_rq SF_LOCKED y s2 \<Longrightarrow> test_bit_rq SF_LOCKED y s3" for y
    using ptl_shutdown_keeps [OF c2 a2, where now = now and x = y] by (simp_all add: s3_def)
  have i3: "inv_lists s3" unfolding s3_def by (rule inv_lists_ptl_shutdown [OF i2])
  have o3: "ok_rq y s3" for y using k(1) by (simp add: inv_compl_def)
  have nq3: "\<not> test_bit_rq SF_QUEUED y s3" for y
    using k(4) [of y] inv_listsD(5) [OF i2, of y] q2 by auto
  then have q3: "queue s3 = []" using inv_listsD(5) [OF i3] by (cases "queue s3") auto
  have claimed3: "\<not> refused y s3 \<and> \<not> test_bit_rq SF_PENDING y s3 \<and> test_bit_rq SF_LOCKED y s3"
    if "y \<in> set (queue s)" for y
  proof -
    from w [OF that] r2 [of y] that
    have "\<not> refused y s2" "\<not> test_bit_rq SF_PENDING y s2" "test_bit_rq SF_LOCKED y s2"
      by (auto simp: refused_def ncompl_def test_bit_rq_def)
    with k(3,5,6) [of y] show ?thesis by blast
  qed
  have p0: "pending s3 = []" if "pending_count s3 = 0"
    using i3 that by (simp add: inv_lists_def)
  have f3: "fst (ssh_ptl_shutdown cbs now s2) = Inr ()"
    using ret unfolding s2_def
    by (simp add: ssh_rtl_shutdown_def Let_def case_prod_unfold split: sum.splits)
  have res: "?s' = s6"
  proof (cases "pending_count s3 = 0")
    case True
    then have "?s' = shutdown_complete (queue s) (s3\<lparr>rtx_reaper := None\<rparr>)"
      using f3 unfolding s3_def s2_def
      by (simp add: ssh_rtl_shutdown_def Let_def case_prod_unfold cl2 split: sum.splits)
    then show ?thesis using p0 [OF True] by (simp add: s6_def s5_def)
  next
    case False
    then show ?thesis
      using f3 unfolding s6_def s5_def s3_def s2_def
      by (simp add: ssh_rtl_shutdown_def Let_def case_prod_unfold cl2 claim_pending_result
          split: sum.splits)
  qed
  have r5: "requests s5 y =
     (if y \<in> set (pending s3)
      then (requests s3 y)\<lparr>state := insert SF_LOCKED (state (requests s3 y)) - {SF_PENDING}\<rparr>
      else requests s3 y)" for y
    by (simp add: s5_def claim_pending_result)
  have q5: "queue s5 = []" "pending s5 = []" by (simp_all add: s5_def claim_pending_result q3)
  have r6: "requests s6 y =
     (if (y \<in> set (queue s) \<or> y \<in> set (pending s3)) \<and>  \<not> test_bit_rq SF_COMPLETED y s5
      then (requests s5 y)\<lparr>state := insert SF_COMPLETED (state (requests s5 y)),
             completions := completions (requests s5 y) @ [(None, - ESHUTDOWN)]\<rparr>
      else requests s5 y)" for y
    by (simp add: s6_def shutdown_complete_result)
  have "ok_rq y s6 \<and> (settled y s \<longrightarrow> settled y s6)" for y
  proof -
    consider (pend) "y \<in> set (pending s3)"
      | (queued) "y \<notin> set (pending s3)" "y \<in> set (queue s)"
      | (other) "y \<notin> set (pending s3)" "y \<notin> set (queue s)"
      by blast
    then show ?thesis
    proof cases
      case pend
      then have "test_bit_rq SF_PENDING y s3" using inv_listsD(4) [OF i3] by simp
      with o3 [of y] nq3 [of y] have "ncompl y s3 = 0" "\<not> test_bit_rq SF_COMPLETED y s3"
        "SF_QUEUED \<notin> state (requests s3 y)"
        by (auto simp: ok_rq_def refused_def test_bit_rq_def)
      with o3 [of y] pend r5 [of y] r6 [of y] show ?thesis
        by (auto simp: ok_rq_def refused_def settled_def ncompl_def test_bit_rq_def)
    next
      case queued
      with claimed3 [of y] o3 [of y] nq3 [of y] r5 [of y] r6 [of y] show ?thesis
        by (auto simp: ok_rq_def refused_def settled_def ncompl_def test_bit_rq_def)
    next
      case other
      then have e: "requests s6 y = requests s3 y" by (simp add: r5 r6)
      have "settled y s3" if "settled y s"
      proof -
        from that other have "settled y s2" using settled_cong [of s2 y s] r2 [of y] by simp
        with k(2) [of y] show ?thesis by simp
      qed
      moreover have "\<not> test_bit_rq SF_PENDING y s3"
        using other inv_listsD(4) [OF i3] by simp
      ultimately show ?thesis
        using o3 [of y] nq3 [of y] ok_rq_cong [OF e] settled_cong [OF e]
        by (auto simp: settled_def)
    qed
  qed
  then show "inv_compl ?s'" and "settled x s \<Longrightarrow> settled x ?s'"
    by (simp_all add: inv_compl_def res)
  show "queue ?s' = []" "pending ?s' = []"
    by (simp_all add: res s6_def shutdown_complete_result q5)
qed

lemma inv_compl_step:
  assumes i: "inv_lists s" and c: "inv_compl s" and e: "env_ok e s"
  shows "inv_compl (snd (step e s))"
    and "settled x s \<Longrightarrow> settled x (snd (step e s))"
proof -
  have "inv_compl (snd (step e s)) \<and> (settled x s \<longrightarrow> settled x (snd (step e s)))"
  proof (cases e)
    case (Submit r)
    then show ?thesis using inv_compl_submit [OF c, of r] settled_submit [of x s r] by simp
  next
    case (TxWork sub)
    then show ?thesis using inv_compl_tx_work_fn [OF i c, where sub = sub] by simp
  next
    case (PacketCallback r st now)
    then have "ptl_accepted (requests s r)" using e by simp
    from packet_callback_accepted(1,2) [OF c this, where st = st and now = now]
    show ?thesis by (simp add: PacketCallback)
  next
    case (RxResponse cm d)
    then show ?thesis using inv_compl_complete_rx [OF i c, where cm = cm and d = d]
      by simp
  next
    case (Reap now)
    then show ?thesis using inv_compl_reap [OF i c, where now = now] by simp
  next
    case (Cancel cb now r pend)
    then have "case cb of None \<Rightarrow> True | Some st \<Rightarrow> st \<noteq> 0 \<or> ptl_accepted (requests s r)"
      using e by (cases cb) simp_all
    from inv_compl_cancel [OF i c this, where now = now and pend = pend]
    show ?thesis by (simp add: Cancel case_prod_unfold split: sum.splits)
  next
    case (Shutdown cbs now)
    then have "\<forall>c\<in>set cbs. ptl_accepted (requests s (fst c))"
      "fst (ssh_rtl_shutdown cbs now s) = Inr ()"
      using e by simp_all
    from inv_compl_shutdown(1,2) [OF i c this]
    show ?thesis by (simp add: Shutdown)
  qed
  then show "inv_compl (snd (step e s))" and "settled x s \<Longrightarrow> settled x (snd (step e s))"
    by simp_all
qed

lemma inv_compl_run:
  "inv_lists s \<Longrightarrow> inv_compl s \<Longrightarrow> run_ok es s \<Longrightarrow>
     inv_compl (run es s) \<and> (settled x s \<longrightarrow> settled x (run es s))"
proof (induction es arbitrary: s)
  case Nil
  then show ?case by simp
next
  case (Cons e es)
  from Cons.prems have e: "env_ok e s" and r: "run_ok es (snd (step e s))" by simp_all
  note k = inv_compl_step [OF Cons.prems(1,2) e]
  from Cons.IH [OF inv_lists_step [OF Cons.prems(1)] k(1) r] k(2) [of x]
  show ?case by auto
qed

lemma accepted_settled:
  "inv_lists s \<Longrightarrow> inv_compl s \<Longrightarrow> run_ok es s \<Longrightarrow> r \<in> accepted es s \<Longrightarrow>
     settled r (run es s)"
proof (induction es arbitrary: s)
  case Nil
  then show ?case by simp
next
  case (Cons e es)
  let ?s1 = "snd (step e s)"
  from Cons.prems have e: "env_ok e s" and ro: "run_ok es ?s1" by simp_all
  have i1: "inv_lists ?s1" by (rule inv_lists_step [OF Cons.prems(1)])
  have c1: "inv_compl ?s1" by (rule inv_compl_step(1) [OF Cons.prems(1,2) e])
  show ?case
  proof (cases "r \<in> accepted es ?s1")
    case True
    from Cons.IH [OF i1 c1 ro True] show ?thesis by simp
  next
    case False
    with Cons.prems(4) obtain "e = Submit r" "fst (ssh_rtl_submit r s) = 0"
      by (cases e) (auto split: if_splits)
    then have "settled r ?s1" using settled_submit_new [of r s] by simp
    with inv_compl_run [OF i1 c1 ro, of r] show ?thesis by simp
  qed
qed

lemma fresh_inv_compl: "fresh s \<Longrightarrow> inv_compl s"
  unfolding fresh_def inv_compl_def ok_rq_def refused_def ncompl_def test_bit_rq_def
    SSH_REQUEST_FLAGS_TY_MASK_def
  by auto

lemma shutdown_no_callbacks: "fst (ssh_rtl_shutdown [] now s) = Inr ()"
  by (simp add: ssh_rtl_shutdown_def Let_def case_prod_unfold)

text \<open>
  Runs in which no entry point is interrupted by another. Start from a freshly initialised
  layer and let the entry points run one after the other in any order (submission,
  transmitter work, packet callbacks, responses, the timeout reaper, cancellation,
  shutdown), the packet layer calling back only for packets it had accepted. For every
  request for which \<^verbatim>\<open>ssh_rtl_submit\<close> returned 0 the \<^verbatim>\<open>complete\<close> callback was invoked
  at most once at every moment, and exactly once as soon as the request is neither in the
  queue nor in the pending set. This does not cover a thread that runs between the two
  halves of \<^verbatim>\<open>ssh_rtl_tx_try_process_one\<close>; that case follows in the next subsection.
\<close>

lemma complete_once_sequential:
  assumes "fresh s" "run_ok es s" "r \<in> accepted es s"
  shows "ncompl r (run es s) \<le> 1
       \<and> (r \<notin> set (queue (run es s)) \<and> r \<notin> set (pending (run es s))
            \<longrightarrow> ncompl r (run es s) = 1)"
proof -
  have i: "inv_lists s" and c: "inv_compl s"
    using assms(1) by (simp_all add: fresh_inv_lists fresh_inv_compl)
  have i': "inv_lists (run es s)" by (rule inv_lists_run [OF i])
  have "ok_rq r (run es s)" using inv_compl_run [OF i c assms(2)] by (simp add: inv_compl_def)
  then have "ncompl r (run es s) \<le> 1" by (auto simp: ok_rq_def refused_def)
  moreover have "settled r (run es s)" by (rule accepted_settled [OF i c assms(2,3)])
  ultimately show ?thesis using inv_listsD(4,5) [OF i', of r] by (auto simp: settled_def)
qed

lemma complete_once_sequential_example:
  "fresh rtl_boot
   \<and> run_ok [Submit 0, TxWork (\<lambda>i. 0), Submit 2, Shutdown [] 5000] rtl_boot
   \<and> 0 \<in> accepted [Submit 0, TxWork (\<lambda>i. 0), Submit 2, Shutdown [] 5000] rtl_boot
   \<and> ncompl 0 (run [Submit 0, TxWork (\<lambda>i. 0), Submit 2, Shutdown [] 5000] rtl_boot) = 1"
proof -
  let ?es = "[Submit 0, TxWork (\<lambda>i. 0), Submit 2, Shutdown [] 5000]"
  let ?s3 = "run [Submit 0, TxWork (\<lambda>i. 0), Submit 2] rtl_boot"
  have f: "fresh rtl_boot"
    unfolding fresh_def by (auto simp: boot_defs upd_rq_def SSH_REQUEST_FLAGS_TY_MASK_def)
  have ro: "run_ok ?es rtl_boot" by (simp add: shutdown_no_callbacks)
  have "fst (ssh_rtl_submit 0 rtl_boot) = 0" by (simp add: ssh_rtl_submit_def eval_defs)
  then have a: "0 \<in> accepted ?es rtl_boot" by simp
  have ro3: "run_ok [Submit 0, TxWork (\<lambda>i. 0), Submit 2] rtl_boot" by simp
  have i3: "inv_lists ?s3" by (rule inv_lists_run [OF fresh_inv_lists [OF f]])
  have c3: "inv_compl ?s3"
    using inv_compl_run [OF fresh_inv_lists [OF f] fresh_inv_compl [OF f] ro3] by simp
  have e: "run ?es rtl_boot = snd (ssh_rtl_shutdown [] 5000 ?s3)" by simp
  have "queue (run ?es rtl_boot) = []" "pending (run ?es rtl_boot) = []"
    unfolding e using inv_compl_shutdown(3,4) [OF i3 c3 _ shutdown_no_callbacks] by simp_all
  with complete_once_sequential [OF f ro a] f ro a show ?thesis by simp
qed

subsection \<open>A cancellation inside a transmission attempt\<close>

text \<open>
  Claim C1 fails when a cancellation runs between the two halves of
  \<^verbatim>\<open>ssh_rtl_tx_try_process_one\<close>. \<^verbatim>\<open>ssh_rtl_submit\<close> returns 0 for request 0. The
  transmitter takes it from the queue and puts it in the pending set. Before the
  transmitter calls \<^verbatim>\<open>ssh_ptl_submit\<close>, a client cancels the request with the pending
  hint: the cancellation wins LOCKED and COMPLETED and completes the request with
  \<open>-ECANCELED\<close>. The packet layer, shut down in the meantime, refuses the packet with
  \<open>-ESHUTDOWN\<close>, and the transmitter completes the request a second time: this path, unlike
  every other one, calls \<^verbatim>\<open>complete\<close> without testing and setting COMPLETED.
\<close>

theorem complete_twice:
  "fst (ssh_rtl_submit 0 rtl_boot) = 0
   \<and> rtl_queued = snd (ssh_rtl_submit 0 rtl_boot)
   \<and> tx_process_begin rtl_queued = (Inr 0, rtl_transmitting)
   \<and> fst (ssh_rtl_cancel None 5000 0 True rtl_transmitting) = Inr True
   \<and> completions (requests (snd (ssh_rtl_cancel None 5000 0 True rtl_transmitting)) 0)
       = [(None, - ECANCELED)]
   \<and> completions (requests (snd (tx_process_end 0 (- ESHUTDOWN)
        (snd (ssh_rtl_cancel None 5000 0 True rtl_transmitting)))) 0)
       = [(None, - ECANCELED), (None, - ESHUTDOWN)]"
proof -
  have a: "fst (ssh_rtl_submit 0 rtl_boot) = 0" by (simp add: ssh_rtl_submit_def eval_defs)
  have b: "tx_process_begin rtl_queued = (Inr 0, rtl_transmitting)"
    by (simp add: prod_eq_iff rtl_transmitting_def)
  have c: "fst (ssh_rtl_cancel None 5000 0 True rtl_transmitting) = Inr True"
    "requests (snd (ssh_rtl_cancel None 5000 0 True rtl_transmitting)) 0 =
       \<lparr>state = {SF_CANCELED, SF_COMPLETED, SF_LOCKED, SF_TRANSMITTING, TY_HAS_RESPONSE},
        ptl = True, sequenced = True, data_rqid = Some 0x42,
        timestamp = 9223372036854775807, completions = [(None, - ECANCELED)],
        ptl_accepted = False\<rparr>"
    by (simp_all add: ssh_rtl_cancel_def ssh_rtl_cancel_pending_def ssh_ptl_cancel_def
        eval_defs insert_commute)
  have d: "completions (requests (snd (tx_process_end 0 (- ESHUTDOWN)
        (snd (ssh_rtl_cancel None 5000 0 True rtl_transmitting)))) 0)
       = [(None, - ECANCELED), (None, - ESHUTDOWN)]"
    by (simp add: tx_process_end_def c(2) rq_defs)
  show ?thesis using a b c d by (simp add: rtl_queued_def)
qed

subsection \<open>Flush\<close>






lemma shutdown_loops_flag [simp]:
  "shutdown (snd (shutdown_claim_queue rs cl s)) = shutdown s"
  "shutdown (snd (shutdown_claim_pending rs cl s)) = shutdown s"
  "shutdown (shutdown_complete rs s) = shutdown s"
  by (induction rs arbitrary: cl s) (simp_all add: rq_defs)








end
